theory Spec2Isabelle
  imports Main "HOL-Library.Word" "HOL-Library.Sublist"
begin

section \<open>JavaScript strings\<close>

text \<open>
  A JavaScript string is a sequence of UTF-16 code units, and a regular expression without
  the \<open>u\<close> flag (all of \<open>letterboxd.js\<close>) matches code unit by code unit. The star glyph
  U+2605 and the half glyph U+00BD are one code unit each.
\<close>

type_synonym jschar = "16 word"
type_synonym jsstring = "jschar list"

definition js :: "string \<Rightarrow> jsstring" where
  "js s = map of_char s"

definition dq :: jsstring where \<comment> \<open>the double quote\<close>
  "dq = [0x22]"

definition STAR :: jschar where
  "STAR = 0x2605"

definition HALF :: jschar where
  "HALF = 0xBD"

subsection \<open>Character classes\<close>

definition anyChar :: "jschar \<Rightarrow> bool" where \<comment> \<open>\<open>[\s\S]\<close>\<close>
  "anyChar c = True"

definition dot :: "jschar \<Rightarrow> bool" where \<comment> \<open>\<open>.\<close>: anything but a line terminator\<close>
  "dot c = (c \<noteq> 0x0A \<and> c \<noteq> 0x0D \<and> c \<noteq> 0x2028 \<and> c \<noteq> 0x2029)"

definition isDigit :: "jschar \<Rightarrow> bool" where \<comment> \<open>\<open>\d\<close>\<close>
  "isDigit c = (0x30 \<le> c \<and> c \<le> 0x39)"

definition isWord :: "jschar \<Rightarrow> bool" where \<comment> \<open>\<open>\w\<close>\<close>
  "isWord c = ((0x41 \<le> c \<and> c \<le> 0x5A) \<or> (0x61 \<le> c \<and> c \<le> 0x7A) \<or> isDigit c \<or> c = 0x5F)"

definition isSpace :: "jschar \<Rightarrow> bool" where \<comment> \<open>\<open>\s\<close>: white space and line terminators\<close>
  "isSpace c = (c = 0x09 \<or> c = 0x0A \<or> c = 0x0B \<or> c = 0x0C \<or> c = 0x0D \<or> c = 0x20
     \<or> c = 0xA0 \<or> c = 0x1680 \<or> (0x2000 \<le> c \<and> c \<le> 0x200A) \<or> c = 0x2028 \<or> c = 0x2029
     \<or> c = 0x202F \<or> c = 0x205F \<or> c = 0x3000 \<or> c = 0xFEFF)"

definition isStar :: "jschar \<Rightarrow> bool" where
  "isStar c = (c = STAR)"

definition isHalf :: "jschar \<Rightarrow> bool" where
  "isHalf c = (c = HALF)"

definition notQuote :: "jschar \<Rightarrow> bool" where \<comment> \<open>\<open>[^"]\<close>\<close>
  "notQuote c = (c \<noteq> 0x22)"

definition notGt :: "jschar \<Rightarrow> bool" where \<comment> \<open>\<open>[^>]\<close>\<close>
  "notGt c = (c \<noteq> 0x3E)"

section \<open>Backtracking matchers\<close>

text \<open>
  Each construct of a regular expression is a matcher in continuation-passing style: it
  consumes a part of the input and hands the rest (and what it consumed) to the
  continuation, which stands for the remainder of the pattern. When the continuation
  fails the matcher tries its next alternative, in the order of a backtracking engine:
  a greedy quantifier the longest repetition first, a lazy one the shortest first.
  \<open>None\<close> is the failure of the match (\<open>null\<close> in JavaScript).
\<close>

definition lit :: "jsstring \<Rightarrow> (jsstring \<Rightarrow> 'r option) \<Rightarrow> jsstring \<Rightarrow> 'r option" where
  "lit p k s = (if prefix p s then k (drop (length p) s) else None)"

fun star :: "(jschar \<Rightarrow> bool) \<Rightarrow> (jsstring \<Rightarrow> jsstring \<Rightarrow> 'r option) \<Rightarrow> jsstring \<Rightarrow> 'r option" where
  "star cls k [] = k [] []"
| "star cls k (c # cs) =
     (if cls c then
        (case star cls (\<lambda>m. k (c # m)) cs of
           Some r \<Rightarrow> Some r
         | None \<Rightarrow> k [] (c # cs))
      else k [] (c # cs))"

definition oneOrMore :: "(jschar \<Rightarrow> bool) \<Rightarrow> (jsstring \<Rightarrow> jsstring \<Rightarrow> 'r option) \<Rightarrow> jsstring \<Rightarrow> 'r option" where
  "oneOrMore cls k s =
     (case s of
        [] \<Rightarrow> None
      | c # cs \<Rightarrow> if cls c then star cls (\<lambda>m. k (c # m)) cs else None)"

fun lazy :: "(jschar \<Rightarrow> bool) \<Rightarrow> (jsstring \<Rightarrow> jsstring \<Rightarrow> 'r option) \<Rightarrow> jsstring \<Rightarrow> 'r option" where
  "lazy cls k [] = k [] []"
| "lazy cls k (c # cs) =
     (case k [] (c # cs) of
        Some r \<Rightarrow> Some r
      | None \<Rightarrow> if cls c then lazy cls (\<lambda>m. k (c # m)) cs else None)"

definition opt :: "(jschar \<Rightarrow> bool) \<Rightarrow> (jsstring \<Rightarrow> jsstring \<Rightarrow> 'r option) \<Rightarrow> jsstring \<Rightarrow> 'r option" where
  "opt cls k s =
     (case s of
        [] \<Rightarrow> k [] []
      | c # cs \<Rightarrow>
          if cls c then (case k [c] cs of Some r \<Rightarrow> Some r | None \<Rightarrow> k [] (c # cs))
          else k [] (c # cs))"

primrec count :: "nat \<Rightarrow> (jschar \<Rightarrow> bool) \<Rightarrow> (jsstring \<Rightarrow> jsstring \<Rightarrow> 'r option) \<Rightarrow> jsstring \<Rightarrow> 'r option" where
  "count 0 cls k s = k [] s"
| "count (Suc n) cls k s =
     (case s of
        [] \<Rightarrow> None
      | c # cs \<Rightarrow> if cls c then count n cls (\<lambda>m. k (c # m)) cs else None)"

definition eoi :: "'r option \<Rightarrow> jsstring \<Rightarrow> 'r option" where \<comment> \<open>\<open>$\<close> without the \<open>m\<close> flag\<close>
  "eoi r s = (if s = [] then r else None)"

fun altLit :: "jsstring list \<Rightarrow> (jsstring \<Rightarrow> jsstring \<Rightarrow> 'r option) \<Rightarrow> jsstring \<Rightarrow> 'r option" where
  "altLit [] k s = None"
| "altLit (p # ps) k s =
     (case lit p (k p) s of
        Some r \<Rightarrow> Some r
      | None \<Rightarrow> altLit ps k s)"

text \<open>An unanchored pattern is tried at every start position, from the left.\<close>

fun search :: "(jsstring \<Rightarrow> 'r option) \<Rightarrow> jsstring \<Rightarrow> 'r option" where
  "search m [] = m []"
| "search m (c # cs) =
     (case m (c # cs) of
        Some r \<Rightarrow> Some r
      | None \<Rightarrow> search m cs)"

fun includesStr :: "jsstring \<Rightarrow> jsstring \<Rightarrow> bool" where \<comment> \<open>\<open>String.prototype.includes\<close>\<close>
  "includesStr [] p = (p = [])"
| "includesStr (c # cs) p = (prefix p (c # cs) \<or> includesStr cs p)"

subsection \<open>What a successful match consumed\<close>

lemma lit_Some_iff: "lit p k s = Some r \<longleftrightarrow> (\<exists>t. s = p @ t \<and> k t = Some r)"
  by (auto simp: lit_def prefix_def)

lemma lit_append [simp]: "lit p k (p @ t) = k t"
  by (simp add: lit_def)

lemma star_sound:
  "star cls k s = Some r \<Longrightarrow> \<exists>m t. s = m @ t \<and> list_all cls m \<and> k m t = Some r"
proof (induction s arbitrary: k)
  case Nil
  then show ?case by simp
next
  case (Cons c cs)
  show ?case
  proof (cases "cls c \<and> star cls (\<lambda>m. k (c # m)) cs \<noteq> None")
    case True
    then have "star cls (\<lambda>m. k (c # m)) cs = Some r"
      using Cons.prems by auto
    from Cons.IH [OF this] obtain m t where "cs = m @ t" "list_all cls m" "k (c # m) t = Some r"
      by blast
    with True have "c # cs = (c # m) @ t \<and> list_all cls (c # m) \<and> k (c # m) t = Some r"
      by simp
    then show ?thesis by blast
  next
    case False
    then have "k [] (c # cs) = Some r"
      using Cons.prems by (auto split: if_splits)
    then have "c # cs = [] @ (c # cs) \<and> list_all cls [] \<and> k [] (c # cs) = Some r"
      by simp
    then show ?thesis by blast
  qed
qed

lemma oneOrMore_sound:
  assumes "oneOrMore cls k s = Some r"
  shows "\<exists>m t. s = m @ t \<and> m \<noteq> [] \<and> list_all cls m \<and> k m t = Some r"
proof -
  from assms obtain c cs where s: "s = c # cs" and c: "cls c"
    and st: "star cls (\<lambda>m. k (c # m)) cs = Some r"
    by (auto simp: oneOrMore_def split: list.splits if_splits)
  from star_sound [OF st] obtain m t where "cs = m @ t" "list_all cls m" "k (c # m) t = Some r"
    by blast
  with s c have "s = (c # m) @ t \<and> c # m \<noteq> [] \<and> list_all cls (c # m) \<and> k (c # m) t = Some r"
    by simp
  then show ?thesis by blast
qed

lemma lazy_sound:
  "lazy cls k s = Some r \<Longrightarrow> \<exists>m t. s = m @ t \<and> list_all cls m \<and> k m t = Some r"
proof (induction s arbitrary: k)
  case Nil
  then show ?case by simp
next
  case (Cons c cs)
  show ?case
  proof (cases "k [] (c # cs)")
    case (Some a)
    then have "c # cs = [] @ (c # cs) \<and> list_all cls [] \<and> k [] (c # cs) = Some r"
      using Cons.prems by simp
    then show ?thesis by blast
  next
    case None
    then have c: "cls c" and "lazy cls (\<lambda>m. k (c # m)) cs = Some r"
      using Cons.prems by (auto split: if_splits)
    from Cons.IH [OF this(2)] obtain m t where "cs = m @ t" "list_all cls m" "k (c # m) t = Some r"
      by blast
    with c have "c # cs = (c # m) @ t \<and> list_all cls (c # m) \<and> k (c # m) t = Some r"
      by simp
    then show ?thesis by blast
  qed
qed

lemma count_sound:
  "count n cls k s = Some r \<Longrightarrow>
   \<exists>m t. s = m @ t \<and> length m = n \<and> list_all cls m \<and> k m t = Some r"
proof (induction n arbitrary: k s)
  case 0
  then show ?case by simp
next
  case (Suc n)
  from Suc.prems obtain c cs where s: "s = c # cs" and c: "cls c"
    and st: "count n cls (\<lambda>m. k (c # m)) cs = Some r"
    by (auto split: list.splits if_splits)
  from Suc.IH [OF st] obtain m t where
    "cs = m @ t" "length m = n" "list_all cls m" "k (c # m) t = Some r"
    by blast
  with s c have "s = (c # m) @ t \<and> length (c # m) = Suc n \<and> list_all cls (c # m)
      \<and> k (c # m) t = Some r"
    by simp
  then show ?case by blast
qed

lemma opt_sound:
  assumes "opt cls k s = Some r"
  shows "\<exists>m t. s = m @ t \<and> length m \<le> 1 \<and> list_all cls m \<and> k m t = Some r"
proof (cases "\<exists>c cs. s = c # cs \<and> cls c \<and> k [c] cs = Some r")
  case True
  then obtain c cs where "s = [c] @ cs \<and> length [c] \<le> 1 \<and> list_all cls [c] \<and> k [c] cs = Some r"
    by auto
  then show ?thesis by blast
next
  case False
  with assms have "s = [] @ s \<and> length ([] :: jsstring) \<le> 1 \<and> list_all cls [] \<and> k [] s = Some r"
    by (auto simp: opt_def split: list.splits if_splits option.splits)
  then show ?thesis by blast
qed

lemma altLit_sound:
  "altLit ps k s = Some r \<Longrightarrow> \<exists>p t. p \<in> set ps \<and> s = p @ t \<and> k p t = Some r"
proof (induction ps)
  case Nil
  then show ?case by simp
next
  case (Cons p ps)
  show ?case
  proof (cases "lit p (k p) s")
    case None
    with Cons show ?thesis by auto
  next
    case (Some a)
    with Cons.prems have "lit p (k p) s = Some r" by simp
    then obtain t where "s = p @ t" "k p t = Some r"
      by (auto simp: lit_Some_iff)
    then show ?thesis by auto
  qed
qed

lemma search_sound: "search m s = Some r \<Longrightarrow> \<exists>a b. s = a @ b \<and> m b = Some r"
proof (induction s)
  case Nil
  then show ?case by simp
next
  case (Cons c cs)
  show ?case
  proof (cases "m (c # cs)")
    case None
    with Cons obtain a b where "cs = a @ b" "m b = Some r" by auto
    then have "c # cs = (c # a) @ b \<and> m b = Some r" by simp
    then show ?thesis by blast
  next
    case (Some x)
    with Cons.prems have "c # cs = [] @ (c # cs) \<and> m (c # cs) = Some r" by simp
    then show ?thesis by blast
  qed
qed

lemma litE:
  assumes "lit p k s = Some r"
  obtains t where "s = p @ t" and "k t = Some r"
  using assms by (auto simp: lit_Some_iff)

lemma starE:
  assumes "star cls k s = Some r"
  obtains m t where "s = m @ t" and "list_all cls m" and "k m t = Some r"
  using star_sound [OF assms] by blast

lemma oneOrMoreE:
  assumes "oneOrMore cls k s = Some r"
  obtains m t where "s = m @ t" and "m \<noteq> []" and "list_all cls m" and "k m t = Some r"
  using oneOrMore_sound [OF assms] by blast

lemma lazyE:
  assumes "lazy cls k s = Some r"
  obtains m t where "s = m @ t" and "list_all cls m" and "k m t = Some r"
  using lazy_sound [OF assms] by blast

lemma countE:
  assumes "count n cls k s = Some r"
  obtains m t where "s = m @ t" and "length m = n" and "list_all cls m" and "k m t = Some r"
  using count_sound [OF assms] by blast

lemma optE:
  assumes "opt cls k s = Some r"
  obtains m t where "s = m @ t" and "length m \<le> 1" and "list_all cls m" and "k m t = Some r"
  using opt_sound [OF assms] by blast

lemma searchE:
  assumes "search m s = Some r"
  obtains a b where "s = a @ b" and "m b = Some r"
  using search_sound [OF assms] by blast

lemma eoiE:
  assumes "eoi x s = Some r"
  obtains "s = []" and "x = Some r"
  using assms by (auto simp: eoi_def split: if_splits)

section \<open>The Film record\<close>

record film =
  title :: jsstring
  year :: "jsstring option"
  rating :: "jsstring option"
  watchDate :: "jsstring option"
  link :: "jsstring option"
  rewatch :: bool

section \<open>The regular expressions of \<open>fetchRecentActivity\<close>\<close>

text \<open>
  \<^verbatim>\<open>/<item>([\s\S]*?)<\/item>/g\<close>, run by \<open>exec\<close>: the result is group 1 and the input
  after the match, where the next \<open>exec\<close> resumes (\<open>lastIndex\<close>).
\<close>

definition itemRegex :: "jsstring \<Rightarrow> (jsstring \<times> jsstring) option" where
  "itemRegex =
     search (lit (js ''<item>'') (lazy anyChar (\<lambda>g. lit (js ''</item>'') (\<lambda>rest. Some (g, rest)))))"

text \<open>\<^verbatim>\<open>/<title><!\[CDATA\[(.*?)\]\]><\/title>/\<close>: group 1.\<close>

definition titleCdataRegex :: "jsstring \<Rightarrow> jsstring option" where
  "titleCdataRegex =
     search (lit (js ''<title><![CDATA['') (lazy dot (\<lambda>g. lit (js '']]></title>'') (\<lambda>rest. Some g))))"

text \<open>\<^verbatim>\<open>/<title>(.*?)<\/title>/\<close>: group 1.\<close>

definition titlePlainRegex :: "jsstring \<Rightarrow> jsstring option" where
  "titlePlainRegex =
     search (lit (js ''<title>'') (lazy dot (\<lambda>g. lit (js ''</title>'') (\<lambda>rest. Some g))))"

text \<open>\<^verbatim>\<open>/<link>(.*?)<\/link>/\<close>: group 1.\<close>

definition linkRegex :: "jsstring \<Rightarrow> jsstring option" where
  "linkRegex =
     search (lit (js ''<link>'') (lazy dot (\<lambda>g. lit (js ''</link>'') (\<lambda>rest. Some g))))"

text \<open>\<^verbatim>\<open>/<description><!\[CDATA\[([\s\S]*?)\]\]><\/description>/\<close>: group 1.\<close>

definition descRegex :: "jsstring \<Rightarrow> jsstring option" where
  "descRegex =
     search (lit (js ''<description><![CDATA['')
       (lazy anyChar (\<lambda>g. lit (js '']]></description>'') (\<lambda>rest. Some g))))"

text \<open>
  \<^verbatim>\<open>/^(.+),\s*(\d{4})$/\<close>: groups 1 and 2. The pattern starts with \<open>^\<close> and has no \<open>m\<close>
  flag, so it can match at the start of the input only.
\<close>

definition titleYearRegex :: "jsstring \<Rightarrow> (jsstring \<times> jsstring) option" where
  "titleYearRegex =
     oneOrMore dot (\<lambda>g1. lit (js '','')
       (star isSpace (\<lambda>ws. count 4 isDigit (\<lambda>g2. eoi (Some (g1, g2))))))"

text \<open>The star glyphs, then an optional half glyph: the whole match (index 0).\<close>

definition ratingRegex :: "jsstring \<Rightarrow> jsstring option" where
  "ratingRegex = search (oneOrMore isStar (\<lambda>stars. opt isHalf (\<lambda>half rest. Some (stars @ half))))"

text \<open>\<^verbatim>\<open>/Watched on\s+\w+\s+(\w+\s+\d+,\s+\d{4})/\<close>: group 1.\<close>

definition dateRegex :: "jsstring \<Rightarrow> jsstring option" where
  "dateRegex =
     search (lit (js ''Watched on'')
       (oneOrMore isSpace (\<lambda>s1. oneOrMore isWord (\<lambda>w1. oneOrMore isSpace (\<lambda>s2.
          oneOrMore isWord (\<lambda>a. oneOrMore isSpace (\<lambda>b. oneOrMore isDigit (\<lambda>c. lit (js '','')
            (oneOrMore isSpace (\<lambda>d. count 4 isDigit (\<lambda>e rest.
               Some (a @ b @ c @ js '','' @ d @ e))))))))))))"

section \<open>\<open>fetchRecentActivity\<close>: the feed\<close>

text \<open>
  Lines 40 to 44: the title and the year of a full title.
\<close>

definition titleYear :: "jsstring \<Rightarrow> jsstring \<times> jsstring option" where
  "titleYear fullTitle =
     (case titleYearRegex fullTitle of
        Some (t, y) \<Rightarrow> (t, Some y)
      | None \<Rightarrow> (fullTitle, None))"

text \<open>Lines 33 and 34: the CDATA form first, the plain form when it does not match.\<close>

definition titleMatch :: "jsstring \<Rightarrow> jsstring option" where
  "titleMatch item =
     (case titleCdataRegex item of
        Some g \<Rightarrow> Some g
      | None \<Rightarrow> titlePlainRegex item)"

text \<open>
  The body of the loop, lines 31 to 66, on the text of one item: \<open>None\<close> is the
  \<open>continue\<close> of line 38, \<open>Some\<close> the record pushed at line 59.
\<close>

definition feedItem :: "jsstring \<Rightarrow> film option" where
  "feedItem item =
     (let linkMatch = linkRegex item;
          descMatch = descRegex item
      in case titleMatch item of
           None \<Rightarrow> None
         | Some fullTitle \<Rightarrow>
             Some \<lparr>title = fst (titleYear fullTitle),
                   year = snd (titleYear fullTitle),
                   rating = (case descMatch of None \<Rightarrow> None | Some desc \<Rightarrow> ratingRegex desc),
                   watchDate = (case descMatch of None \<Rightarrow> None | Some desc \<Rightarrow> dateRegex desc),
                   link = linkMatch,
                   rewatch = (case descMatch of
                                None \<Rightarrow> False
                              | Some desc \<Rightarrow> includesStr desc (js ''Rewatched''))\<rparr>)"

lemma itemRegex_shorter:
  assumes "itemRegex xml = Some (item, rest)"
  shows "length rest < length xml"
proof -
  from assms obtain a b where "xml = a @ b"
    and "lit (js ''<item>'') (lazy anyChar (\<lambda>g. lit (js ''</item>'') (\<lambda>rest. Some (g, rest)))) b
           = Some (item, rest)"
    unfolding itemRegex_def by (blast dest: search_sound)
  then obtain t where "xml = a @ js ''<item>'' @ t"
    and "lazy anyChar (\<lambda>g. lit (js ''</item>'') (\<lambda>rest. Some (g, rest))) t = Some (item, rest)"
    by (auto simp: lit_Some_iff)
  then obtain m u where "xml = a @ js ''<item>'' @ m @ u"
    and "lit (js ''</item>'') (\<lambda>rest. Some (m, rest)) u = Some (item, rest)"
    by (blast dest: lazy_sound)
  then have "xml = a @ js ''<item>'' @ item @ js ''</item>'' @ rest"
    by (auto simp: lit_Some_iff)
  then show ?thesis by (simp add: js_def)
qed

text \<open>The \<open>while\<close> loop of lines 30 to 67 on the input that \<open>exec\<close> has not consumed yet.\<close>

function feedLoop :: "jsstring \<Rightarrow> film list \<Rightarrow> film list" where
  "feedLoop xml films =
     (case itemRegex xml of
        None \<Rightarrow> films
      | Some (item, rest) \<Rightarrow>
          (case feedItem item of
             None \<Rightarrow> feedLoop rest films
           | Some f \<Rightarrow> feedLoop rest (films @ [f])))"
  by pat_completeness auto
termination
  by (relation "measure (\<lambda>(xml, films). length xml)") (auto dest: itemRegex_shorter)

declare feedLoop.simps [simp del]

text \<open>Lines 26 to 69: the films of a feed document.\<close>

definition feedFilms :: "jsstring \<Rightarrow> film list" where
  "feedFilms xml = feedLoop xml []"

section \<open>The transport\<close>

text \<open>
  \<open>fetch\<close> is the collaborator of the three entry points: for a URL it resolves to a
  response, with its \<open>ok\<close> flag and its body (what \<open>response.text()\<close> resolves to), or
  it rejects; reading the body may reject as well. An \<open>await\<close> of a rejected promise throws,
  and nothing in \<open>letterboxd.js\<close> catches. Every entry point returns, with its result,
  the URLs it has requested, in the order of the requests. A request is its URL: the
  header that the page requests carry is the same for all of them, and no function reads
  anything of a response but \<open>ok\<close> and the body. The calls are awaited one after the
  other, so the order of the requests is the order of the program. \<open>RangeError\<close> is what
  a call with more arguments than the engine accepts throws.
\<close>

datatype error = FetchRejected | TextRejected | RangeError

record response =
  ok :: bool
  body :: "error + jsstring"

type_synonym transport = "jsstring \<Rightarrow> error + response"

text \<open>A template literal renders a page number in decimal.\<close>

fun numberToString :: "nat \<Rightarrow> jsstring" where
  "numberToString n =
     (if n < 10 then [of_nat (48 + n)]
      else numberToString (n div 10) @ [of_nat (48 + n mod 10)])"

declare numberToString.simps [simp del]

definition feedUrl :: "jsstring \<Rightarrow> jsstring" where
  "feedUrl username = js ''https://letterboxd.com/'' @ username @ js ''/rss/''"

definition filmsUrl :: "jsstring \<Rightarrow> nat \<Rightarrow> jsstring" where
  "filmsUrl username page =
     js ''https://letterboxd.com/'' @ username @ js ''/films/page/'' @ numberToString page @ js ''/''"

definition watchlistUrl :: "jsstring \<Rightarrow> nat \<Rightarrow> jsstring" where
  "watchlistUrl username page =
     js ''https://letterboxd.com/'' @ username @ js ''/watchlist/page/'' @ numberToString page
       @ js ''/''"

text \<open>Lines 21 to 70. The status of the response is not read.\<close>

definition fetchRecentActivity :: "transport \<Rightarrow> jsstring \<Rightarrow> (error + film list) \<times> jsstring list" where
  "fetchRecentActivity fetch username =
     (let url = feedUrl username
      in case fetch url of
           Inl e \<Rightarrow> (Inl e, [url])
         | Inr response \<Rightarrow>
             (case body response of
                Inl e \<Rightarrow> (Inl e, [url])
              | Inr xml \<Rightarrow> (Inr (feedFilms xml), [url])))"

section \<open>\<open>decodeHtmlEntities\<close>\<close>

definition entities :: "(jsstring \<times> jsstring) list" where
  "entities =
     [(js ''&#039;'', [0x27]),
      (js ''&amp;'', js ''&''),
      (js ''&lt;'', js ''<''),
      (js ''&gt;'', js ''>''),
      (js ''&quot;'', dq)]"

text \<open>
  \<^verbatim>\<open>/&#039;|&amp;|&lt;|&gt;|&quot;/\<close> at the current position: the alternative that
  matched and the input after it.
\<close>

definition entityRegex :: "jsstring \<Rightarrow> (jsstring \<times> jsstring) option" where
  "entityRegex =
     altLit [js ''&#039;'', js ''&amp;'', js ''&lt;'', js ''&gt;'', js ''&quot;'']
       (\<lambda>m rest. Some (m, rest))"

text \<open>
  The callback \<open>m => entities[m]\<close>; a key that the object does not have would give
  \<open>undefined\<close>, which \<open>replace\<close> writes out.
\<close>

definition entityOf :: "jsstring \<Rightarrow> jsstring" where
  "entityOf m = (case map_of entities m of Some v \<Rightarrow> v | None \<Rightarrow> js ''undefined'')"

lemma entityRegex_shorter:
  assumes "entityRegex s = Some (m, rest)"
  shows "length rest < length s"
proof -
  from assms obtain p t where
    "p \<in> set [js ''&#039;'', js ''&amp;'', js ''&lt;'', js ''&gt;'', js ''&quot;'']"
    and "s = p @ t" and "Some (p, t) = Some (m, rest)"
    unfolding entityRegex_def by (blast dest: altLit_sound)
  then show ?thesis by (auto simp: js_def)
qed

text \<open>
  \<open>replace\<close> with a global pattern: at each position, from the left, a match is replaced
  and the scan resumes after it; a code unit where no alternative matches is copied.
\<close>

function decodeHtmlEntities :: "jsstring \<Rightarrow> jsstring" where
  "decodeHtmlEntities str =
     (case str of
        [] \<Rightarrow> []
      | c # cs \<Rightarrow>
          (case entityRegex str of
             Some (m, rest) \<Rightarrow> entityOf m @ decodeHtmlEntities rest
           | None \<Rightarrow> c # decodeHtmlEntities cs))"
  by pat_completeness auto
termination
  by (relation "measure length") (auto dest: entityRegex_shorter)

declare decodeHtmlEntities.simps [simp del]

section \<open>\<open>parseFilmsPage\<close>\<close>

text \<open>
  \<^verbatim>\<open>/data-target-link="(\/film\/[^"]+\/)"[^>]*>[\s\S]*?<img[^>]*alt="([^"]+)"/g\<close>, run by
  \<open>exec\<close>: groups 1 and 2, and the input after the match.
\<close>

definition pattern :: "jsstring \<Rightarrow> ((jsstring \<times> jsstring) \<times> jsstring) option" where
  "pattern =
     search (lit (js ''data-target-link='' @ dq) (lit (js ''/film/'') (oneOrMore notQuote (\<lambda>p.
       lit (js ''/'') (lit dq (star notGt (\<lambda>a. lit (js ''>'') (lazy anyChar (\<lambda>b.
         lit (js ''<img'') (star notGt (\<lambda>c. lit (js ''alt='' @ dq) (oneOrMore notQuote (\<lambda>alt.
           lit dq (\<lambda>rest. Some ((js ''/film/'' @ p @ js ''/'', alt), rest)))))))))))))))"

lemma pattern_sound:
  assumes "pattern html = Some ((l, alt), rest)"
  shows "alt \<noteq> [] \<and> length rest < length html"
  using assms unfolding pattern_def
  by (elim searchE litE oneOrMoreE starE lazyE) (simp add: dq_def)

text \<open>The \<open>while\<close> loop of lines 140 to 152.\<close>

function parseFilmsLoop :: "jsstring \<Rightarrow> film list \<Rightarrow> film list" where
  "parseFilmsLoop html films =
     (case pattern html of
        None \<Rightarrow> films
      | Some ((l, alt), rest) \<Rightarrow>
          parseFilmsLoop rest
            (films @ [\<lparr>title = decodeHtmlEntities alt, year = None, rating = None,
                       watchDate = None, link = Some (js ''https://letterboxd.com'' @ l),
                       rewatch = False\<rparr>]))"
  by pat_completeness auto
termination
  by (relation "measure (\<lambda>(html, films). length html)") (auto dest: pattern_sound)

declare parseFilmsLoop.simps [simp del]

definition parseFilmsPage :: "jsstring \<Rightarrow> film list" where
  "parseFilmsPage html = parseFilmsLoop html []"

section \<open>\<open>fetchWatchedFilms\<close> and \<open>fetchWatchlist\<close>\<close>

text \<open>
  The two functions have the same body but for the URL and the bound of the \<open>while\<close>:
  \<open>pageLoop\<close> is that loop, with the films collected and the requests made so far.

  Lines 94 and 123 are \<open>films.push(...pageFilms)\<close>: the spread passes every film of the
  page as an argument of its own to one call of \<open>push\<close>, and a call with more arguments
  than the engine accepts throws a \<open>RangeError\<close>. The number of arguments that one call
  can take depends on the engine and on its stack; it is the parameter \<open>argLimit\<close>.
\<close>

function pageLoop ::
  "nat \<Rightarrow> nat \<Rightarrow> (nat \<Rightarrow> jsstring) \<Rightarrow> transport \<Rightarrow> nat \<Rightarrow> film list \<Rightarrow> jsstring list
   \<Rightarrow> (error + film list) \<times> jsstring list" where
  "pageLoop argLimit ceiling url fetch page films reqs =
     (if page \<le> ceiling then
        (case fetch (url page) of
           Inl e \<Rightarrow> (Inl e, reqs @ [url page])
         | Inr response \<Rightarrow>
             if \<not> ok response then (Inr films, reqs @ [url page])
             else
               (case body response of
                  Inl e \<Rightarrow> (Inl e, reqs @ [url page])
                | Inr html \<Rightarrow>
                    if length (parseFilmsPage html) = 0 then (Inr films, reqs @ [url page])
                    else if argLimit < length (parseFilmsPage html)
                    then (Inl RangeError, reqs @ [url page])
                    else pageLoop argLimit ceiling url fetch (page + 1)
                           (films @ parseFilmsPage html) (reqs @ [url page])))
      else (Inr films, reqs))"
  by pat_completeness auto
termination
  by (relation "measure (\<lambda>(argLimit, ceiling, url, fetch, page, films, reqs). Suc ceiling - page)")
    auto

declare pageLoop.simps [simp del]

definition fetchWatchedFilms ::
  "nat \<Rightarrow> transport \<Rightarrow> jsstring \<Rightarrow> (error + film list) \<times> jsstring list" where
  "fetchWatchedFilms argLimit fetch username =
     pageLoop argLimit 50 (filmsUrl username) fetch 1 [] []"

definition fetchWatchlist ::
  "nat \<Rightarrow> transport \<Rightarrow> jsstring \<Rightarrow> (error + film list) \<times> jsstring list" where
  "fetchWatchlist argLimit fetch username =
     pageLoop argLimit 20 (watchlistUrl username) fetch 1 [] []"

section \<open>Definitions for the statements\<close>

text \<open>
  The texts of the items of a document: group 1 of the successive matches of
  \<open>itemRegex\<close>, as the loop of line 30 sees them.
\<close>

function feedItems :: "jsstring \<Rightarrow> jsstring list" where
  "feedItems xml =
     (case itemRegex xml of
        None \<Rightarrow> []
      | Some (item, rest) \<Rightarrow> item # feedItems rest)"
  by pat_completeness auto
termination
  by (relation "measure length") (auto dest: itemRegex_shorter)

declare feedItems.simps [simp del]

text \<open>The pattern of \<open>ratingRegex\<close> at one start position.\<close>

definition ratingAt :: "jsstring \<Rightarrow> jsstring option" where
  "ratingAt = oneOrMore isStar (\<lambda>stars. opt isHalf (\<lambda>half rest. Some (stars @ half)))"

text \<open>
  The title and year as the specification words them: the title ends with a comma, one
  space and four digits after a non-empty text, or it is taken whole.
\<close>

definition specTitleYear :: "jsstring \<Rightarrow> jsstring \<times> jsstring option" where
  "specTitleYear s =
     (let n = length s
      in if 6 < n \<and> take 2 (drop (n - 6) s) = js '', '' \<and> list_all isDigit (drop (n - 4) s)
         then (take (n - 6) s, Some (drop (n - 4) s))
         else (s, None))"


text \<open>The number that a string of decimal digits writes.\<close>

definition digitsValue :: "jsstring \<Rightarrow> nat" where
  "digitsValue s = foldl (\<lambda>acc c. 10 * acc + (unat c - 48)) 0 s"

section \<open>Inputs of the examples\<close>



text \<open>A transport that answers every request with a failure status and a short body.\<close>

definition notFound :: transport where
  "notFound url = Inr \<lparr>ok = False, body = Inr (js ''Not Found'')\<rparr>"

text \<open>A feed of two items, the first without a title.\<close>

definition untitledFeed :: jsstring where
  "untitledFeed = js ''<item><link>a</link></item><item><title>Heat</title></item>''"

text \<open>A feed whose only item has an empty title element.\<close>

definition emptyTitleFeed :: jsstring where
  "emptyTitleFeed = js ''<item><title></title></item>''"

text \<open>A listing page with one film.\<close>

definition heatPage :: jsstring where
  "heatPage =
     js ''<li><div data-target-link='' @ dq @ js ''/film/heat/'' @ dq @ js '' class=x><img src=y alt=''
     @ dq @ js ''Heat &amp; Dust'' @ dq @ js ''/></div></li>''"

text \<open>A feed whose only item has six star glyphs in its description.\<close>

definition sixStarFeed :: jsstring where
  "sixStarFeed =
     js ''<item><title>Heat</title><description><![CDATA[''
     @ [STAR, STAR, STAR, STAR, STAR, STAR] @ js '']]></description></item>''"

text \<open>A transport where every page has one film.\<close>

definition alwaysHeat :: transport where
  "alwaysHeat url = Inr \<lparr>ok = True, body = Inr heatPage\<rparr>"

text \<open>A transport where page 3 of the films of \<open>bob\<close> is empty, and every other page has one film.\<close>

definition emptyThird :: transport where
  "emptyThird url =
     (if url = filmsUrl (js ''bob'') 3 then Inr \<lparr>ok = True, body = Inr (js ''<ul></ul>'')\<rparr>
      else Inr \<lparr>ok = True, body = Inr heatPage\<rparr>)"

text \<open>The film of \<open>heatPage\<close>.\<close>

definition heatFilm :: film where
  "heatFilm =
     \<lparr>title = js ''Heat & Dust'', year = None, rating = None, watchDate = None,
      link = Some (js ''https://letterboxd.com/film/heat/''), rewatch = False\<rparr>"

text \<open>A transport where page 2 of the watchlist of \<open>bob\<close> has a failure status.\<close>

definition failSecond :: transport where
  "failSecond url =
     (if url = watchlistUrl (js ''bob'') 2 then Inr \<lparr>ok = False, body = Inr (js ''Not Found'')\<rparr>
      else Inr \<lparr>ok = True, body = Inr heatPage\<rparr>)"

text \<open>One film of a listing page, and its record.\<close>

definition heatEntry :: jsstring where
  "heatEntry =
     js ''data-target-link='' @ dq @ js ''/film/heat/'' @ dq @ js ''><img alt='' @ dq
     @ js ''Heat'' @ dq @ js ''>''"

definition entryFilm :: film where
  "entryFilm =
     \<lparr>title = js ''Heat'', year = None, rating = None, watchDate = None,
      link = Some (js ''https://letterboxd.com/film/heat/''), rewatch = False\<rparr>"

text \<open>A listing page of \<open>n\<close> films.\<close>

definition hugePage :: "nat \<Rightarrow> jsstring" where
  "hugePage n = concat (replicate n heatEntry)"

text \<open>
  A transport where page 1 of the films of \<open>bob\<close> has 200000 films, and every other page a
  failure status.
\<close>

definition hugeThenFail :: transport where
  "hugeThenFail url =
     (if url = filmsUrl (js ''bob'') 1 then Inr \<lparr>ok = True, body = Inr (hugePage 200000)\<rparr>
      else Inr \<lparr>ok = False, body = Inr (js ''Not Found'')\<rparr>)"



section \<open>Lemmas on the feed loop and on titles\<close>

lemma feedLoop_eq: "feedLoop xml films = films @ List.map_filter feedItem (feedItems xml)"
proof (induction xml films rule: feedLoop.induct)
  case (1 xml films)
  show ?case
  proof (cases "itemRegex xml")
    case None
    then show ?thesis
      by (simp add: feedLoop.simps [of xml] feedItems.simps [of xml] List.map_filter_simps)
  next
    case (Some a)
    obtain item rest where a: "a = (item, rest)" by (cases a)
    show ?thesis
    proof (cases "feedItem item")
      case None
      with Some a "1.IH"(1) [OF Some a [symmetric] None] show ?thesis
        by (simp add: feedLoop.simps [of xml] feedItems.simps [of xml] List.map_filter_simps)
    next
      case (Some f)
      with \<open>itemRegex xml = Some a\<close> a "1.IH"(2) [OF \<open>itemRegex xml = Some a\<close> a [symmetric] Some]
      show ?thesis
        by (simp add: feedLoop.simps [of xml] feedItems.simps [of xml] List.map_filter_simps)
    qed
  qed
qed

lemma feedItem_None_iff: "feedItem item = None \<longleftrightarrow> titleMatch item = None"
  by (simp add: feedItem_def Let_def split: option.splits)

lemma titleYearRegex_nonempty: "titleYearRegex s = Some (t, y) \<Longrightarrow> t \<noteq> []"
  unfolding titleYearRegex_def by (elim oneOrMoreE litE starE countE eoiE) simp

lemma titleYear_nonempty:
  assumes "s \<noteq> []"
  shows "fst (titleYear s) \<noteq> []"
proof (cases "titleYearRegex s")
  case None
  with assms show ?thesis by (simp add: titleYear_def)
next
  case (Some a)
  obtain t y where a: "a = (t, y)" by (cases a)
  with Some have "t \<noteq> []" by (simp add: titleYearRegex_nonempty)
  with Some a show ?thesis by (simp add: titleYear_def)
qed

lemma titleYear_empty: "titleYear [] = ([], None)"
  by (simp add: titleYear_def titleYearRegex_def oneOrMore_def)

lemma feedItem_title:
  assumes "feedItem item = Some f"
  shows "title f = [] \<longleftrightarrow> titleMatch item = Some []"
proof (cases "titleMatch item")
  case None
  with assms show ?thesis by (simp add: feedItem_def)
next
  case (Some fullTitle)
  with assms have "title f = fst (titleYear fullTitle)"
    by (auto simp: feedItem_def Let_def)
  with Some show ?thesis
    using titleYear_nonempty [of fullTitle] by (auto simp: titleYear_empty)
qed

lemma entityOf_nonempty:
  assumes "entityRegex s = Some (m, rest)"
  shows "entityOf m \<noteq> []"
proof -
  from assms obtain p t where
    "p \<in> set [js ''&#039;'', js ''&amp;'', js ''&lt;'', js ''&gt;'', js ''&quot;'']"
    and "Some (p, t) = Some (m, rest)"
    unfolding entityRegex_def by (blast dest: altLit_sound)
  then have "m \<in> set [js ''&#039;'', js ''&amp;'', js ''&lt;'', js ''&gt;'', js ''&quot;'']"
    by simp
  then show ?thesis
    by (auto simp: entityOf_def entities_def js_def dq_def)
qed

lemma decodeHtmlEntities_nonempty:
  assumes "s \<noteq> []"
  shows "decodeHtmlEntities s \<noteq> []"
proof -
  from assms obtain c cs where s: "s = c # cs" by (cases s) auto
  show ?thesis
  proof (cases "entityRegex s")
    case None
    with s show ?thesis by (simp add: decodeHtmlEntities.simps [of "c # cs"])
  next
    case (Some a)
    obtain m rest where a: "a = (m, rest)" by (cases a)
    with Some have "entityOf m \<noteq> []" by (simp add: entityOf_nonempty)
    with s Some a show ?thesis by (simp add: decodeHtmlEntities.simps [of "c # cs"])
  qed
qed

lemma parseFilmsLoop_titles:
  "\<forall>f \<in> set films. title f \<noteq> [] \<Longrightarrow> \<forall>f \<in> set (parseFilmsLoop html films). title f \<noteq> []"
proof (induction html films rule: parseFilmsLoop.induct)
  case (1 html films)
  show ?case
  proof (cases "pattern html")
    case None
    with "1.prems" show ?thesis by (simp add: parseFilmsLoop.simps [of html])
  next
    case (Some a)
    obtain l alt rest where a: "a = ((l, alt), rest)" by (cases a) auto
    with Some have "alt \<noteq> []" by (simp add: pattern_sound)
    then have "decodeHtmlEntities alt \<noteq> []" by (rule decodeHtmlEntities_nonempty)
    with "1.prems" have "\<forall>f \<in> set (films @ [\<lparr>title = decodeHtmlEntities alt, year = None,
        rating = None, watchDate = None, link = Some (js ''https://letterboxd.com'' @ l),
        rewatch = False\<rparr>]). title f \<noteq> []"
      by simp
    from "1.IH" [OF Some a [symmetric] refl this] a Some show ?thesis
      by (simp add: parseFilmsLoop.simps [of html])
  qed
qed

lemma parseFilmsPage_titles: "\<forall>f \<in> set (parseFilmsPage html). title f \<noteq> []"
  unfolding parseFilmsPage_def by (rule parseFilmsLoop_titles) simp

lemma feedFilms_eq: "feedFilms xml = List.map_filter feedItem (feedItems xml)"
  by (simp add: feedFilms_def feedLoop_eq)

lemma in_set_map_filter:
  "y \<in> set (List.map_filter f xs) \<longleftrightarrow> (\<exists>x. x \<in> set xs \<and> f x = Some y)"
  by (induction xs) (auto split: option.splits)

lemma feedFilms_titles:
  assumes "\<forall>item \<in> set (feedItems xml). titleMatch item \<noteq> Some []"
  shows "\<forall>f \<in> set (feedFilms xml). title f \<noteq> []"
proof
  fix f assume "f \<in> set (feedFilms xml)"
  then obtain item where "item \<in> set (feedItems xml)" "feedItem item = Some f"
    by (auto simp: feedFilms_eq in_set_map_filter)
  with assms show "title f \<noteq> []" by (auto simp: feedItem_title)
qed

section \<open>Lemmas on greedy matching\<close>

lemma star_max:
  "k (takeWhile cls s) (dropWhile cls s) = Some r \<Longrightarrow> star cls k s = Some r"
  by (induction s arbitrary: k) auto

lemma star_complete:
  "s = m @ t \<Longrightarrow> list_all cls m \<Longrightarrow> k m t = Some r \<Longrightarrow> star cls k s \<noteq> None"
proof (induction m arbitrary: k s)
  case Nil
  then show ?case by (cases t) (auto split: option.splits)
next
  case (Cons a m)
  from Cons.prems have "star cls (\<lambda>x. k (a # x)) (m @ t) \<noteq> None"
    by (intro Cons.IH [of "m @ t" "\<lambda>x. k (a # x)"]) auto
  with Cons.prems show ?case by auto
qed

lemma oneOrMore_complete:
  assumes "s = m @ t" "m \<noteq> []" "list_all cls m" "k m t = Some r"
  shows "oneOrMore cls k s \<noteq> None"
proof -
  from assms obtain a m' where m: "m = a # m'" by (cases m) auto
  with assms have "star cls (\<lambda>x. k (a # x)) (m' @ t) \<noteq> None"
    by (intro star_complete [of "m' @ t" m' t cls "\<lambda>x. k (a # x)" r]) auto
  with assms m show ?thesis by (simp add: oneOrMore_def)
qed

lemma search_skip:
  "(\<And>a b. pre = a @ b \<Longrightarrow> b \<noteq> [] \<Longrightarrow> m (b @ s) = None) \<Longrightarrow> search m (pre @ s) = search m s"
proof (induction pre)
  case Nil
  then show ?case by simp
next
  case (Cons c pre)
  have "m ((c # pre) @ s) = None"
    by (rule Cons.prems [of "[]" "c # pre"]) auto
  moreover have "search m (pre @ s) = search m s"
  proof (rule Cons.IH)
    fix a b assume "pre = a @ b" "b \<noteq> []"
    then show "m (b @ s) = None"
      using Cons.prems [of "c # a" b] by simp
  qed
  ultimately show ?case by simp
qed

lemma search_hit: "m s = Some r \<Longrightarrow> search m s = Some r"
  by (cases s) auto

section \<open>Lemmas on the rating\<close>

lemma ratingRegex_search: "ratingRegex = search ratingAt"
  by (simp add: ratingRegex_def ratingAt_def)

lemma ratingAt_nonstar: "\<not> prefix [STAR] s \<Longrightarrow> ratingAt s = None"
  by (cases s) (auto simp: ratingAt_def oneOrMore_def isStar_def)

lemma ratingAt_run:
  assumes "\<not> prefix [STAR] post"
  shows "ratingAt (STAR # replicate n STAR @ post)
    = Some (STAR # replicate n STAR @ (if prefix [HALF] post then [HALF] else []))"
proof -
  have post: "takeWhile isStar post = [] \<and> dropWhile isStar post = post"
    using assms by (cases post) (auto simp: isStar_def)
  have tw: "takeWhile isStar (replicate n STAR @ post) = replicate n STAR"
    using post by (induction n) (auto simp: isStar_def)
  have dw: "dropWhile isStar (replicate n STAR @ post) = post"
    using post by (induction n) (auto simp: isStar_def)
  have "opt isHalf (\<lambda>half rest. Some ((STAR # replicate n STAR) @ half)) post
      = Some (STAR # replicate n STAR @ (if prefix [HALF] post then [HALF] else []))"
    by (cases post) (auto simp: opt_def isHalf_def)
  then have "star isStar (\<lambda>m. opt isHalf (\<lambda>half rest. Some ((STAR # m) @ half)))
      (replicate n STAR @ post)
      = Some (STAR # replicate n STAR @ (if prefix [HALF] post then [HALF] else []))"
    by (intro star_max) (simp add: tw dw)
  then show ?thesis by (simp add: ratingAt_def oneOrMore_def isStar_def)
qed

lemma ratingRegex_skip:
  assumes "STAR \<notin> set pre"
  shows "ratingRegex (pre @ s) = ratingRegex s"
  unfolding ratingRegex_search
proof (rule search_skip)
  fix a b assume "pre = a @ b" "b \<noteq> []"
  with assms have "\<not> prefix [STAR] (b @ s)" by (cases b) auto
  then show "ratingAt (b @ s) = None" by (rule ratingAt_nonstar)
qed

lemma ratingRegex_none:
  assumes "STAR \<notin> set desc"
  shows "ratingRegex desc = None"
proof -
  have "ratingRegex (desc @ []) = ratingRegex []"
    using assms by (rule ratingRegex_skip)
  then show ?thesis by (simp add: ratingRegex_search ratingAt_nonstar)
qed

lemma ratingRegex_run:
  assumes "STAR \<notin> set pre" "\<not> prefix [STAR] post"
  shows "ratingRegex (pre @ STAR # replicate n STAR @ post)
    = Some (STAR # replicate n STAR @ (if prefix [HALF] post then [HALF] else []))"
proof -
  have "ratingRegex (pre @ STAR # replicate n STAR @ post)
      = ratingRegex (STAR # replicate n STAR @ post)"
    using assms(1) by (rule ratingRegex_skip)
  also have "\<dots> = Some (STAR # replicate n STAR @ (if prefix [HALF] post then [HALF] else []))"
    unfolding ratingRegex_search using assms(2) by (intro search_hit ratingAt_run)
  finally show ?thesis .
qed

lemma star_shape:
  "STAR \<in> set desc \<Longrightarrow>
   \<exists>pre n post. desc = pre @ STAR # replicate n STAR @ post \<and> STAR \<notin> set pre
     \<and> \<not> prefix [STAR] post"
proof -
  assume "STAR \<in> set desc"
  then obtain pre rest where d: "desc = pre @ STAR # rest" "STAR \<notin> set pre"
    by (auto dest: split_list_first)
  have "rest = replicate (length (takeWhile isStar rest)) STAR @ dropWhile isStar rest"
  proof -
    have "takeWhile isStar rest = replicate (length (takeWhile isStar rest)) STAR"
      by (rule replicate_length_same [symmetric]) (auto simp: isStar_def dest: set_takeWhileD)
    then show ?thesis by (metis takeWhile_dropWhile_id)
  qed
  moreover have "\<not> prefix [STAR] (dropWhile isStar rest)"
  proof
    assume "prefix [STAR] (dropWhile isStar rest)"
    then obtain ys where "dropWhile isStar rest = STAR # ys"
      by (auto simp: prefix_def)
    with hd_dropWhile [of isStar rest] show False
      by (simp add: isStar_def)
  qed
  ultimately show ?thesis using d by blast
qed

lemma ratingRegex_None_iff: "ratingRegex desc = None \<longleftrightarrow> STAR \<notin> set desc"
  using ratingRegex_none [of desc] star_shape [of desc] ratingRegex_run by fastforce

lemma feedItem_rating:
  assumes "feedItem item = Some f" "descRegex item = Some desc"
  shows "rating f = ratingRegex desc"
  using assms by (auto simp: feedItem_def Let_def split: option.splits)

section \<open>Lemmas on the title and the year\<close>

lemma isDigit_not_isSpace: "isDigit c \<Longrightarrow> \<not> isSpace c"
  by (auto simp: isDigit_def isSpace_def word_le_nat_alt)

lemma comma_not_isSpace: "\<not> isSpace 0x2C"
  by (simp add: isSpace_def)

lemma comma_not_isDigit: "\<not> isDigit 0x2C"
  by (simp add: isDigit_def)

lemma js_comma: "js '','' = [0x2C]"
  by (simp add: js_def)

lemma titleYearRegex_sound:
  assumes "titleYearRegex s = Some (t, y)"
  shows "\<exists>ws. s = t @ js '','' @ ws @ y \<and> t \<noteq> [] \<and> list_all dot t \<and> list_all isSpace ws
    \<and> length y = 4 \<and> list_all isDigit y"
  using assms unfolding titleYearRegex_def
  by (elim oneOrMoreE litE starE countE eoiE) auto

lemma last_sep_unique:
  "a @ c # u = b @ c # v \<Longrightarrow> c \<notin> set u \<Longrightarrow> c \<notin> set v \<Longrightarrow> a = b \<and> u = v"
proof (induction a arbitrary: b)
  case Nil
  then show ?case by (cases b) auto
next
  case (Cons x a)
  then show ?case by (cases b) auto
qed

text \<open>The split is unique: the comma is the last one, and the digits are the last four units.\<close>

lemma split_unique:
  assumes "t @ 0x2C # ws @ y = t' @ 0x2C # ws' @ y'"
    and "length y = 4" "length y' = 4"
    and "list_all isSpace ws" "list_all isSpace ws'"
    and "list_all isDigit y" "list_all isDigit y'"
  shows "t = t' \<and> y = y'"
proof -
  have c: "0x2C \<notin> set (ws @ y)" "0x2C \<notin> set (ws' @ y')"
    using assms comma_not_isSpace comma_not_isDigit by (auto simp: list_all_iff)
  have "t @ 0x2C # (ws @ y) = t' @ 0x2C # (ws' @ y')"
    using assms(1) by simp
  from last_sep_unique [OF this c] have "t = t' \<and> ws @ y = ws' @ y'" .
  moreover from this assms have "y = y'"
    by (metis append_eq_append_conv)
  ultimately show ?thesis by simp
qed

lemma titleYearRegex_complete:
  assumes "t \<noteq> []" "list_all dot t" "list_all isSpace ws" "length y = 4" "list_all isDigit y"
  shows "titleYearRegex (t @ js '','' @ ws @ y) = Some (t, y)"
proof -
  let ?s = "t @ js '','' @ ws @ y"
  have inner: "lit (js '','') (star isSpace (\<lambda>ws. count 4 isDigit (\<lambda>g2. eoi (Some (t, g2)))))
      (js '','' @ ws @ y) = Some (t, y)"
  proof -
    have tw: "takeWhile isSpace (ws @ y) = ws" "dropWhile isSpace (ws @ y) = y"
      using assms isDigit_not_isSpace
      by (cases y; auto simp: list_all_iff takeWhile_eq_Nil_iff dropWhile_eq_self_iff)+
    have "count 4 isDigit (\<lambda>g2. eoi (Some (t, g2))) y = Some (t, y)"
    proof -
      from assms obtain a b c d where "y = [a, b, c, d]"
        by (auto simp: length_Suc_conv eval_nat_numeral)
      with assms show ?thesis by (simp add: eval_nat_numeral eoi_def)
    qed
    then have "star isSpace (\<lambda>ws. count 4 isDigit (\<lambda>g2. eoi (Some (t, g2)))) (ws @ y) = Some (t, y)"
      by (intro star_max) (simp add: tw)
    then show ?thesis by simp
  qed
  have "titleYearRegex ?s \<noteq> None"
    unfolding titleYearRegex_def
    using assms(1,2) inner by (intro oneOrMore_complete [of ?s t "js '','' @ ws @ y"]) auto
  then obtain t' y' where r: "titleYearRegex ?s = Some (t', y')" by auto
  from titleYearRegex_sound [OF this] obtain ws' where
    "?s = t' @ js '','' @ ws' @ y'" "list_all isSpace ws'" "length y' = 4" "list_all isDigit y'"
    by blast
  with assms have "t = t' \<and> y = y'"
    by (intro split_unique [of t ws y t' ws' y']) (simp_all add: js_comma)
  with r show ?thesis by simp
qed

lemma titleYear_split:
  assumes "t \<noteq> []" "list_all dot t" "list_all isSpace ws" "length y = 4" "list_all isDigit y"
  shows "titleYear (t @ js '','' @ ws @ y) = (t, Some y)"
  using titleYearRegex_complete [OF assms] by (simp add: titleYear_def)

lemma titleYear_whole:
  assumes "\<nexists>t ws y. s = t @ js '','' @ ws @ y \<and> t \<noteq> [] \<and> list_all dot t
      \<and> list_all isSpace ws \<and> length y = 4 \<and> list_all isDigit y"
  shows "titleYear s = (s, None)"
proof (cases "titleYearRegex s")
  case None
  then show ?thesis by (simp add: titleYear_def)
next
  case (Some a)
  obtain t y where "a = (t, y)" by (cases a)
  with Some have "titleYearRegex s = Some (t, y)" by simp
  from titleYearRegex_sound [OF this] assms show ?thesis by blast
qed

lemma titleMatch_dot:
  assumes "titleMatch item = Some t"
  shows "list_all dot t"
proof (cases "titleCdataRegex item")
  case None
  with assms have "titlePlainRegex item = Some t" by (simp add: titleMatch_def)
  then show ?thesis
    unfolding titlePlainRegex_def by (elim searchE litE lazyE) simp
next
  case (Some g)
  with assms have "titleCdataRegex item = Some t" by (simp add: titleMatch_def)
  then show ?thesis
    unfolding titleCdataRegex_def by (elim searchE litE lazyE) simp
qed

lemma feedItem_title_year:
  assumes "titleMatch item = Some fullTitle"
  shows "\<exists>f. feedItem item = Some f \<and> title f = fst (titleYear fullTitle)
    \<and> year f = snd (titleYear fullTitle)"
  using assms by (simp add: feedItem_def Let_def)

section \<open>Lemmas on the decoder\<close>







lemma decodeHtmlEntities_Nil [simp]: "decodeHtmlEntities [] = []"
  by (simp add: decodeHtmlEntities.simps [of "[]"])








section \<open>Lemmas on the pagination\<close>

lemma digitsValue_numberToString: "digitsValue (numberToString n) = n"
proof (induction n rule: numberToString.induct)
  case (1 n)
  show ?case
  proof (cases "n < 10")
    case True
    have "unat (of_nat (48 + n) :: jschar) = (48 + n) mod 2 ^ LENGTH(16)"
      by (rule unat_of_nat)
    with True have "unat (of_nat (48 + n) :: jschar) = 48 + n"
      by simp
    with True show ?thesis
      by (simp add: numberToString.simps [of n] digitsValue_def)
  next
    case False
    have "unat (of_nat (48 + n mod 10) :: jschar) = (48 + n mod 10) mod 2 ^ LENGTH(16)"
      by (rule unat_of_nat)
    moreover have "n mod 10 < 10" by simp
    ultimately have "unat (of_nat (48 + n mod 10) :: jschar) = 48 + n mod 10"
      by simp
    with False "1.IH" show ?thesis
      by (simp add: numberToString.simps [of n] digitsValue_def)
  qed
qed

lemma numberToString_inj: "numberToString p = numberToString q \<Longrightarrow> p = q"
  by (metis digitsValue_numberToString)

lemma filmsUrl_inj: "filmsUrl u p = filmsUrl u q \<Longrightarrow> p = q"
  by (simp add: filmsUrl_def numberToString_inj)

lemma watchlistUrl_inj: "watchlistUrl u p = watchlistUrl u q \<Longrightarrow> p = q"
  by (simp add: watchlistUrl_def numberToString_inj)

lemma pageLoop_requests:
  "page \<le> Suc ceiling \<Longrightarrow>
   \<exists>n. page \<le> n \<and> n \<le> Suc ceiling
     \<and> snd (pageLoop argLimit ceiling url fetch page films reqs) = reqs @ map url [page..<n]"
proof (induction argLimit ceiling url fetch page films reqs rule: pageLoop.induct)
  case (1 argLimit ceiling url fetch page films reqs)
  show ?case
  proof (cases "page \<le> ceiling")
    case False
    then have "snd (pageLoop argLimit ceiling url fetch page films reqs) = reqs @ map url [page..<page]"
      by (simp add: pageLoop.simps [of argLimit ceiling url fetch page])
    with "1.prems" show ?thesis by blast
  next
    case True
    have one: "reqs @ [url page] = reqs @ map url [page..<Suc page]"
      by simp
    have stop: "snd (pageLoop argLimit ceiling url fetch page films reqs) = reqs @ [url page] \<Longrightarrow> ?thesis"
      using True one by (metis Suc_le_mono le_Suc_eq)
    show ?thesis
    proof (cases "fetch (url page)")
      case (Inl e)
      with True show ?thesis
        by (intro stop) (simp add: pageLoop.simps [of argLimit ceiling url fetch page])
    next
      case (Inr response)
      show ?thesis
      proof (cases "ok response")
        case False
        with True Inr show ?thesis
          by (intro stop) (simp add: pageLoop.simps [of argLimit ceiling url fetch page])
      next
        case ok: True
        show ?thesis
        proof (cases "body response")
          case (Inl e)
          with True Inr ok show ?thesis
            by (intro stop) (simp add: pageLoop.simps [of argLimit ceiling url fetch page])
        next
          case html: (Inr html)
          show ?thesis
          proof (cases "length (parseFilmsPage html) = 0")
            case True
            with \<open>page \<le> ceiling\<close> Inr ok html show ?thesis
              by (intro stop) (simp add: pageLoop.simps [of argLimit ceiling url fetch page])
          next
            case False
            show ?thesis
            proof (cases "argLimit < length (parseFilmsPage html)")
              case True
              with \<open>page \<le> ceiling\<close> Inr ok html False show ?thesis
                by (intro stop) (simp add: pageLoop.simps [of argLimit ceiling url fetch page])
            next
              case fits: False
            from \<open>page \<le> ceiling\<close> have "page + 1 \<le> Suc ceiling" by simp
            from "1.IH" [OF \<open>page \<le> ceiling\<close> Inr _ html False fits this] ok
            obtain n where n: "page + 1 \<le> n" "n \<le> Suc ceiling"
              "snd (pageLoop argLimit ceiling url fetch (page + 1) (films @ parseFilmsPage html)
                 (reqs @ [url page])) = (reqs @ [url page]) @ map url [page + 1..<n]"
              by auto
            from n(1) have "[page..<n] = page # [page + 1..<n]"
              by (simp add: upt_conv_Cons)
            with n \<open>page \<le> ceiling\<close> Inr ok html False fits
            have "page \<le> n \<and> n \<le> Suc ceiling
              \<and> snd (pageLoop argLimit ceiling url fetch page films reqs) = reqs @ map url [page..<n]"
              by (simp add: pageLoop.simps [of argLimit ceiling url fetch page])
            then show ?thesis by blast
            qed
          qed
        qed
      qed
    qed
  qed
qed

lemma pageLoop_stops:
  assumes "p \<le> k" "k \<le> ceiling"
    and "\<forall>q. p \<le> q \<and> q < k \<longrightarrow>
      (\<exists>r html. fetch (url q) = Inr r \<and> ok r \<and> body r = Inr html
         \<and> parseFilmsPage html \<noteq> [] \<and> length (parseFilmsPage html) \<le> argLimit
         \<and> pages q = parseFilmsPage html)"
    and stop: "\<exists>r. fetch (url k) = Inr r
      \<and> (\<not> ok r \<or> (\<exists>html. body r = Inr html \<and> parseFilmsPage html = []))"
  shows "pageLoop argLimit ceiling url fetch p films reqs
    = (Inr (films @ concat (map pages [p..<k])), reqs @ map url [p..<Suc k])"
  using assms(1,3)
proof (induction "k - p" arbitrary: p films reqs)
  case 0
  then have p: "p = k" by simp
  from stop obtain r where r: "fetch (url k) = Inr r"
    and "\<not> ok r \<or> (\<exists>html. body r = Inr html \<and> parseFilmsPage html = [])"
    by blast
  then consider "\<not> ok r" | html where "ok r" "body r = Inr html" "parseFilmsPage html = []"
    by blast
  then show ?case
  proof cases
    case 1
    with r assms(2) show ?thesis
      by (simp add: p pageLoop.simps [of argLimit ceiling url fetch k])
  next
    case 2
    with r assms(2) show ?thesis
      by (simp add: p pageLoop.simps [of argLimit ceiling url fetch k])
  qed
next
  case (Suc d)
  then have lt: "p < k" by simp
  with Suc.prems obtain r html where r: "fetch (url p) = Inr r" "ok r" "body r = Inr html"
    "parseFilmsPage html \<noteq> []" "length (parseFilmsPage html) \<le> argLimit"
    "pages p = parseFilmsPage html"
    by (meson le_refl)
  have "pageLoop argLimit ceiling url fetch (p + 1) (films @ parseFilmsPage html) (reqs @ [url p])
      = (Inr ((films @ parseFilmsPage html) @ concat (map pages [p + 1..<k])),
         (reqs @ [url p]) @ map url [p + 1..<Suc k])"
  proof (rule Suc.hyps(1))
    show "d = k - (p + 1)" using Suc.hyps(2) by simp
    show "p + 1 \<le> k" using lt by simp
    show "\<forall>q. p + 1 \<le> q \<and> q < k \<longrightarrow>
      (\<exists>r html. fetch (url q) = Inr r \<and> ok r \<and> body r = Inr html
         \<and> parseFilmsPage html \<noteq> [] \<and> length (parseFilmsPage html) \<le> argLimit
         \<and> pages q = parseFilmsPage html)"
      using Suc.prems(2) by auto
  qed
  moreover have "[p..<k] = p # [p + 1..<k]" "[p..<Suc k] = p # [p + 1..<Suc k]"
    using lt by (simp_all add: upt_conv_Cons)
  moreover have "p \<le> ceiling" using lt assms(2) by simp
  ultimately show ?case
    using r by (simp add: pageLoop.simps [of argLimit ceiling url fetch p])
qed

lemma later_page_not_requested:
  assumes "\<And>p q. url p = url q \<Longrightarrow> p = q" "k < q"
  shows "url q \<notin> set (map url [1..<Suc k])"
proof
  assume "url q \<in> set (map url [1..<Suc k])"
  then obtain x where "url q = url x" "x < Suc k" by auto
  from assms(1) [OF this(1)] this(2) assms(2) show False by simp
qed

lemma pageLoop_full:
  assumes "p \<le> Suc ceiling"
    and "\<forall>q. p \<le> q \<and> q \<le> ceiling \<longrightarrow>
      (\<exists>r html. fetch (url q) = Inr r \<and> ok r \<and> body r = Inr html
         \<and> parseFilmsPage html \<noteq> [] \<and> length (parseFilmsPage html) \<le> argLimit
         \<and> pages q = parseFilmsPage html)"
  shows "pageLoop argLimit ceiling url fetch p films reqs
    = (Inr (films @ concat (map pages [p..<Suc ceiling])), reqs @ map url [p..<Suc ceiling])"
  using assms
proof (induction "Suc ceiling - p" arbitrary: p films reqs)
  case 0
  then have "p = Suc ceiling" by simp
  then show ?case by (simp add: pageLoop.simps [of argLimit ceiling url fetch "Suc ceiling"])
next
  case (Suc d)
  then have le: "p \<le> ceiling" by simp
  with Suc.prems obtain r html where r: "fetch (url p) = Inr r" "ok r" "body r = Inr html"
    "parseFilmsPage html \<noteq> []" "length (parseFilmsPage html) \<le> argLimit"
    "pages p = parseFilmsPage html"
    by (meson le_refl)
  have "pageLoop argLimit ceiling url fetch (p + 1) (films @ parseFilmsPage html) (reqs @ [url p])
      = (Inr ((films @ parseFilmsPage html) @ concat (map pages [p + 1..<Suc ceiling])),
         (reqs @ [url p]) @ map url [p + 1..<Suc ceiling])"
  proof (rule Suc.hyps(1))
    show "d = Suc ceiling - (p + 1)" using Suc.hyps(2) by simp
    show "p + 1 \<le> Suc ceiling" using le by simp
    show "\<forall>q. p + 1 \<le> q \<and> q \<le> ceiling \<longrightarrow>
      (\<exists>r html. fetch (url q) = Inr r \<and> ok r \<and> body r = Inr html
         \<and> parseFilmsPage html \<noteq> [] \<and> length (parseFilmsPage html) \<le> argLimit
         \<and> pages q = parseFilmsPage html)"
      using Suc.prems(2) by auto
  qed
  moreover have "[p..<Suc ceiling] = p # [p + 1..<Suc ceiling]"
    using le by (simp add: upt_conv_Cons)
  ultimately show ?case
    using r le by (simp add: pageLoop.simps [of argLimit ceiling url fetch p])
qed

lemma heatPage_films: "parseFilmsPage heatPage = [heatFilm]"
  by code_simp

lemma emptyPage_films: "parseFilmsPage (js ''<ul></ul>'') = []"
  by code_simp

section \<open>Lemmas on a large page\<close>

lemma pattern_heatEntry:
  "pattern (heatEntry @ rest) = Some ((js ''/film/heat/'', js ''Heat''), js ''>'' @ rest)"
  by (simp add: pattern_def heatEntry_def js_def dq_def lit_def oneOrMore_def notQuote_def
      notGt_def anyChar_def)

lemma pattern_skip_gt: "pattern (js ''>'' @ rest) = pattern rest"
  by (simp add: pattern_def js_def dq_def lit_def)

lemma pattern_Nil: "pattern [] = None"
  by (simp add: pattern_def js_def dq_def lit_def)

lemma heat_link: "js ''https://letterboxd.com'' @ js ''/film/heat/'' = js ''https://letterboxd.com/film/heat/''"
  by (simp add: js_def)

lemma decode_Heat: "decodeHtmlEntities (js ''Heat'') = js ''Heat''"
  by code_simp

lemma parseFilmsLoop_skip_gt: "parseFilmsLoop (js ''>'' @ rest) films = parseFilmsLoop rest films"
  by (simp add: parseFilmsLoop.simps [of "js ''>'' @ rest"] parseFilmsLoop.simps [of rest]
      pattern_skip_gt)

lemma parseFilmsLoop_hugePage:
  "parseFilmsLoop (hugePage n) films = films @ replicate n entryFilm"
proof (induction n arbitrary: films)
  case 0
  show ?case
    by (simp add: hugePage_def parseFilmsLoop.simps [of "[]"] pattern_Nil)
next
  case (Suc n)
  have "parseFilmsLoop (heatEntry @ hugePage n) films
      = parseFilmsLoop (js ''>'' @ hugePage n) (films @ [entryFilm])"
    by (simp add: parseFilmsLoop.simps [of "heatEntry @ hugePage n"] pattern_heatEntry
        decode_Heat entryFilm_def heat_link)
  also have "\<dots> = parseFilmsLoop (hugePage n) (films @ [entryFilm])"
    by (rule parseFilmsLoop_skip_gt)
  also have "\<dots> = (films @ [entryFilm]) @ replicate n entryFilm"
    by (rule Suc.IH)
  finally show ?case
    by (simp add: hugePage_def replicate_app_Cons_same)
qed

lemma parseFilmsPage_hugePage: "parseFilmsPage (hugePage n) = replicate n entryFilm"
  by (simp add: parseFilmsPage_def parseFilmsLoop_hugePage)

lemma oversize_first_page:
  assumes "argLimit < 200000"
  shows "fetchWatchedFilms argLimit hugeThenFail (js ''bob'')
    = (Inl RangeError, [filmsUrl (js ''bob'') 1])"
proof -
  have "length (parseFilmsPage (hugePage 200000)) = 200000"
    by (simp add: parseFilmsPage_hugePage)
  with assms show ?thesis
    unfolding fetchWatchedFilms_def
    by (subst pageLoop.simps) (simp add: hugeThenFail_def)
qed

section \<open>Lemmas on the first occurrence of a field\<close>

























section \<open>The claims\<close>

text \<open>
  C1, as the claim states it, fails on the feed: an item with an empty title element
  gives a film with the empty title.
\<close>

theorem feed_empty_title_counterexample: "map title (feedFilms emptyTitleFeed) = [[]]"
  by code_simp

text \<open>
  C1, amended. Every film of a listing page has a non-empty title. A film of the feed has
  the empty title exactly when the title field extracted from its item is empty; so
  every film of a feed has a non-empty title when no item of the feed has an empty
  title field.
\<close>

theorem titles_nonempty:
  "(\<forall>f \<in> set (parseFilmsPage html). title f \<noteq> [])
   \<and> (feedItem item = Some f \<longrightarrow> (title f = [] \<longleftrightarrow> titleMatch item = Some []))
   \<and> ((\<forall>item \<in> set (feedItems xml). titleMatch item \<noteq> Some []) \<longrightarrow>
        (\<forall>f \<in> set (feedFilms xml). title f \<noteq> []))"
  using parseFilmsPage_titles feedItem_title feedFilms_titles by blast

theorem titles_nonempty_witness:
  "map title (parseFilmsPage heatPage) = [js ''Heat & Dust'']
   \<and> list_all (\<lambda>f. title f \<noteq> []) (parseFilmsPage heatPage)
   \<and> map_option title (feedItem (js ''<title>Heat</title>'')) = Some (js ''Heat'')
   \<and> titleMatch (js ''<title>Heat</title>'') \<noteq> Some []
   \<and> list_all (\<lambda>item. titleMatch item \<noteq> Some []) (feedItems untitledFeed)
   \<and> list_all (\<lambda>f. title f \<noteq> []) (feedFilms untitledFeed)"
proof -
  have page: "map title (parseFilmsPage heatPage) = [js ''Heat & Dust'']"
    by code_simp
  have item: "map_option title (feedItem (js ''<title>Heat</title>'')) = Some (js ''Heat'')"
    by code_simp
  then obtain f where f: "feedItem (js ''<title>Heat</title>'') = Some f" "title f = js ''Heat''"
    by auto
  have "js ''Heat'' \<noteq> []"
    by (simp add: js_def)
  with f titles_nonempty [of heatPage "js ''<title>Heat</title>''" f untitledFeed]
  have field: "titleMatch (js ''<title>Heat</title>'') \<noteq> Some []"
    by simp
  have items: "list_all (\<lambda>item. titleMatch item \<noteq> Some []) (feedItems untitledFeed)"
    by code_simp
  then have "\<forall>item \<in> set (feedItems untitledFeed). titleMatch item \<noteq> Some []"
    by (simp add: list_all_iff)
  with titles_nonempty [of heatPage "js ''<title>Heat</title>''" f untitledFeed]
  have "(\<forall>f \<in> set (parseFilmsPage heatPage). title f \<noteq> [])
      \<and> (\<forall>f \<in> set (feedFilms untitledFeed). title f \<noteq> [])"
    by blast
  with page item field items show ?thesis by (simp add: list_all_iff)
qed

text \<open>
  C2, as the claim states it, fails: with a response of failure status the call returns
  normally, here with the empty sequence.
\<close>

theorem feed_failure_status_counterexample:
  "fetchRecentActivity notFound (js ''bob'') = (Inr [], [js ''https://letterboxd.com/bob/rss/''])"
  by code_simp

text \<open>
  C2, amended. \<open>fetchRecentActivity\<close> does not read the status of the response: when the
  fetch resolves and the body can be read, the call returns the films of the body,
  whatever the status; the call fails only when the fetch or the reading of the body
  rejects. It requests the feed URL, once.
\<close>

theorem feed_ignores_status:
  "(fetch (feedUrl username) = Inr r \<and> body r = Inr xml \<longrightarrow>
      fetchRecentActivity fetch username = (Inr (feedFilms xml), [feedUrl username]))
   \<and> (fetch (feedUrl username) = Inr r \<and> body r = Inl e \<longrightarrow>
      fetchRecentActivity fetch username = (Inl e, [feedUrl username]))
   \<and> (fetch (feedUrl username) = Inl e \<longrightarrow>
      fetchRecentActivity fetch username = (Inl e, [feedUrl username]))"
  by (simp add: fetchRecentActivity_def)

theorem feed_ignores_status_witness:
  "notFound (feedUrl (js ''bob'')) = Inr \<lparr>ok = False, body = Inr (js ''Not Found'')\<rparr>
   \<and> body \<lparr>ok = False, body = Inr (js ''Not Found'')\<rparr> = Inr (js ''Not Found'')
   \<and> fetchRecentActivity notFound (js ''bob'')
       = (Inr (feedFilms (js ''Not Found'')), [feedUrl (js ''bob'')])"
  using feed_ignores_status [of notFound "js ''bob''" "\<lparr>ok = False, body = Inr (js ''Not Found'')\<rparr>"
      "js ''Not Found''"]
  by (simp add: notFound_def)

text \<open>
  C3, as the claim states it, fails: the pattern has no bound of five, and a run of six
  star glyphs is returned as the rating.
\<close>

theorem rating_six_stars_counterexample:
  "map rating (feedFilms sixStarFeed) = [Some [STAR, STAR, STAR, STAR, STAR, STAR]]"
  by code_simp

text \<open>
  C3, amended. The rating is absent exactly when the description has no star glyph.
  Otherwise it is the leftmost run of star glyphs, taken whole whatever its length,
  with the half glyph when one follows the run at once. A description whose first star
  glyph starts three stars and a half glyph yields these four glyphs. The rating of a
  film is this match on the description of its item.
\<close>

theorem rating_first_run:
  "(ratingRegex desc = None \<longleftrightarrow> STAR \<notin> set desc)
   \<and> (STAR \<notin> set pre \<and> \<not> prefix [STAR] post \<longrightarrow>
        ratingRegex (pre @ replicate (Suc n) STAR @ post)
          = Some (replicate (Suc n) STAR @ (if prefix [HALF] post then [HALF] else [])))
   \<and> (STAR \<notin> set pre \<longrightarrow>
        ratingRegex (pre @ [STAR, STAR, STAR, HALF] @ post) = Some [STAR, STAR, STAR, HALF])
   \<and> (feedItem item = Some f \<and> descRegex item = Some desc \<longrightarrow> rating f = ratingRegex desc)"
proof (intro conjI impI)
  show "ratingRegex desc = None \<longleftrightarrow> STAR \<notin> set desc"
    by (rule ratingRegex_None_iff)
next
  assume "STAR \<notin> set pre \<and> \<not> prefix [STAR] post"
  then show "ratingRegex (pre @ replicate (Suc n) STAR @ post)
      = Some (replicate (Suc n) STAR @ (if prefix [HALF] post then [HALF] else []))"
    using ratingRegex_run [of pre post n] by simp
next
  assume "STAR \<notin> set pre"
  moreover have "\<not> prefix [STAR] (HALF # post)"
    by (simp add: STAR_def HALF_def)
  ultimately show "ratingRegex (pre @ [STAR, STAR, STAR, HALF] @ post) = Some [STAR, STAR, STAR, HALF]"
    using ratingRegex_run [of pre "HALF # post" 2] by (simp add: eval_nat_numeral)
next
  assume "feedItem item = Some f \<and> descRegex item = Some desc"
  then show "rating f = ratingRegex desc"
    using feedItem_rating [of item f desc] by blast
qed

theorem rating_first_run_witness:
  "STAR \<notin> set (js ''<p>'') \<and> \<not> prefix [STAR] (js ''</p>'')
   \<and> ratingRegex (js ''<p>'' @ replicate (Suc 6) STAR @ js ''</p>'') = Some (replicate (Suc 6) STAR)
   \<and> ratingRegex (js ''<p>'' @ [STAR, STAR, STAR, HALF] @ js ''</p>'') = Some [STAR, STAR, STAR, HALF]
   \<and> ratingRegex (js ''<p>no rating</p>'') = None"
proof -
  have h: "STAR \<notin> set (js ''<p>'') \<and> \<not> prefix [STAR] (js ''</p>'')
      \<and> \<not> prefix [HALF] (js ''</p>'') \<and> STAR \<notin> set (js ''<p>no rating</p>'')"
    by code_simp
  from rating_first_run [of "js ''<p>no rating</p>''" "js ''<p>''" "js ''</p>''" 6] h
  show ?thesis by simp
qed

text \<open>
  C4, as the claim states it, fails: when the first page has more films than one call takes
  arguments (here 200000 films, and an engine whose calls take 125800 arguments; any limit
  below 200000 does the same), and the second page has a failure status, the call does
  not return the films of the first page; it throws at the \<open>push\<close> of line 94, before
  any request for the second page.
\<close>

theorem pagination_oversize_page_counterexample:
  "fetchWatchedFilms 125800 hugeThenFail (js ''bob'')
     = (Inl RangeError, [filmsUrl (js ''bob'') 1])"
  using oversize_first_page [of 125800] by simp

text \<open>
  C4, amended. When the pages before page \<open>k\<close> have a success status and films, none of
  them more films than one call takes arguments, and page \<open>k\<close>, within the ceiling, has
  a failure status or no film, the call returns the films of the pages before \<open>k\<close>, in
  order, without an error, and its requests are the pages 1 to \<open>k\<close>: no later page is
  requested.
\<close>

theorem pagination_stops:
  "(1 \<le> k \<and> k \<le> 50
      \<and> (\<forall>q. 1 \<le> q \<and> q < k \<longrightarrow>
           (\<exists>r html. fetch (filmsUrl username q) = Inr r \<and> ok r \<and> body r = Inr html
              \<and> parseFilmsPage html \<noteq> [] \<and> length (parseFilmsPage html) \<le> argLimit
              \<and> pages q = parseFilmsPage html))
      \<and> (\<exists>r. fetch (filmsUrl username k) = Inr r
           \<and> (\<not> ok r \<or> (\<exists>html. body r = Inr html \<and> parseFilmsPage html = [])))
    \<longrightarrow> fetchWatchedFilms argLimit fetch username
          = (Inr (concat (map pages [1..<k])), map (filmsUrl username) [1..<Suc k])
        \<and> (\<forall>q. k < q \<longrightarrow> filmsUrl username q \<notin> set (snd (fetchWatchedFilms argLimit fetch username))))
   \<and> (1 \<le> k \<and> k \<le> 20
      \<and> (\<forall>q. 1 \<le> q \<and> q < k \<longrightarrow>
           (\<exists>r html. fetch (watchlistUrl username q) = Inr r \<and> ok r \<and> body r = Inr html
              \<and> parseFilmsPage html \<noteq> [] \<and> length (parseFilmsPage html) \<le> argLimit
              \<and> pages q = parseFilmsPage html))
      \<and> (\<exists>r. fetch (watchlistUrl username k) = Inr r
           \<and> (\<not> ok r \<or> (\<exists>html. body r = Inr html \<and> parseFilmsPage html = [])))
    \<longrightarrow> fetchWatchlist argLimit fetch username
          = (Inr (concat (map pages [1..<k])), map (watchlistUrl username) [1..<Suc k])
        \<and> (\<forall>q. k < q \<longrightarrow> watchlistUrl username q \<notin> set (snd (fetchWatchlist argLimit fetch username))))"
proof (intro conjI impI)
  assume h: "1 \<le> k \<and> k \<le> 50
      \<and> (\<forall>q. 1 \<le> q \<and> q < k \<longrightarrow>
           (\<exists>r html. fetch (filmsUrl username q) = Inr r \<and> ok r \<and> body r = Inr html
              \<and> parseFilmsPage html \<noteq> [] \<and> length (parseFilmsPage html) \<le> argLimit
              \<and> pages q = parseFilmsPage html))
      \<and> (\<exists>r. fetch (filmsUrl username k) = Inr r
           \<and> (\<not> ok r \<or> (\<exists>html. body r = Inr html \<and> parseFilmsPage html = [])))"
  then have eq: "pageLoop argLimit 50 (filmsUrl username) fetch 1 [] []
      = (Inr ([] @ concat (map pages [1..<k])), [] @ map (filmsUrl username) [1..<Suc k])"
    by (intro pageLoop_stops) blast+
  then show "fetchWatchedFilms argLimit fetch username
      = (Inr (concat (map pages [1..<k])), map (filmsUrl username) [1..<Suc k])"
    by (simp add: fetchWatchedFilms_def)
  show "\<forall>q. k < q \<longrightarrow> filmsUrl username q \<notin> set (snd (fetchWatchedFilms argLimit fetch username))"
    using eq later_page_not_requested [of "filmsUrl username" k] filmsUrl_inj
    by (simp add: fetchWatchedFilms_def)
next
  assume h: "1 \<le> k \<and> k \<le> 20
      \<and> (\<forall>q. 1 \<le> q \<and> q < k \<longrightarrow>
           (\<exists>r html. fetch (watchlistUrl username q) = Inr r \<and> ok r \<and> body r = Inr html
              \<and> parseFilmsPage html \<noteq> [] \<and> length (parseFilmsPage html) \<le> argLimit
              \<and> pages q = parseFilmsPage html))
      \<and> (\<exists>r. fetch (watchlistUrl username k) = Inr r
           \<and> (\<not> ok r \<or> (\<exists>html. body r = Inr html \<and> parseFilmsPage html = [])))"
  then have eq: "pageLoop argLimit 20 (watchlistUrl username) fetch 1 [] []
      = (Inr ([] @ concat (map pages [1..<k])), [] @ map (watchlistUrl username) [1..<Suc k])"
    by (intro pageLoop_stops) blast+
  then show "fetchWatchlist argLimit fetch username
      = (Inr (concat (map pages [1..<k])), map (watchlistUrl username) [1..<Suc k])"
    by (simp add: fetchWatchlist_def)
  show "\<forall>q. k < q \<longrightarrow> watchlistUrl username q \<notin> set (snd (fetchWatchlist argLimit fetch username))"
    using eq later_page_not_requested [of "watchlistUrl username" k] watchlistUrl_inj
    by (simp add: fetchWatchlist_def)
qed

theorem pagination_stops_witness:
  "fetchWatchedFilms 125800 emptyThird (js ''bob'')
     = (Inr [heatFilm, heatFilm], map (filmsUrl (js ''bob'')) [1..<Suc 3])
   \<and> filmsUrl (js ''bob'') 4 \<notin> set (snd (fetchWatchedFilms 125800 emptyThird (js ''bob'')))
   \<and> fetchWatchlist 125800 failSecond (js ''bob'')
     = (Inr [heatFilm], map (watchlistUrl (js ''bob'')) [1..<Suc 2])
   \<and> watchlistUrl (js ''bob'') 3 \<notin> set (snd (fetchWatchlist 125800 failSecond (js ''bob'')))"
proof -
  have third: "emptyThird (filmsUrl (js ''bob'') 3) = Inr \<lparr>ok = True, body = Inr (js ''<ul></ul>'')\<rparr>"
    by (simp add: emptyThird_def)
  have other: "emptyThird (filmsUrl (js ''bob'') q) = Inr \<lparr>ok = True, body = Inr heatPage\<rparr>"
    if "q < 3" for q
    using that filmsUrl_inj [of "js ''bob''" q 3] by (auto simp: emptyThird_def)
  have a: "(1 :: nat) \<le> 3 \<and> (3 :: nat) \<le> 50
      \<and> (\<forall>q. 1 \<le> q \<and> q < 3 \<longrightarrow>
           (\<exists>r html. emptyThird (filmsUrl (js ''bob'') q) = Inr r \<and> ok r \<and> body r = Inr html
              \<and> parseFilmsPage html \<noteq> [] \<and> length (parseFilmsPage html) \<le> 125800
              \<and> [heatFilm] = parseFilmsPage html))
      \<and> (\<exists>r. emptyThird (filmsUrl (js ''bob'') 3) = Inr r
           \<and> (\<not> ok r \<or> (\<exists>html. body r = Inr html \<and> parseFilmsPage html = [])))"
    by (simp add: third other heatPage_films emptyPage_films)
  have second: "failSecond (watchlistUrl (js ''bob'') 2)
      = Inr \<lparr>ok = False, body = Inr (js ''Not Found'')\<rparr>"
    by (simp add: failSecond_def)
  have first: "failSecond (watchlistUrl (js ''bob'') q) = Inr \<lparr>ok = True, body = Inr heatPage\<rparr>"
    if "q < 2" for q
    using that watchlistUrl_inj [of "js ''bob''" q 2] by (auto simp: failSecond_def)
  have b: "(1 :: nat) \<le> 2 \<and> (2 :: nat) \<le> 20
      \<and> (\<forall>q. 1 \<le> q \<and> q < 2 \<longrightarrow>
           (\<exists>r html. failSecond (watchlistUrl (js ''bob'') q) = Inr r \<and> ok r \<and> body r = Inr html
              \<and> parseFilmsPage html \<noteq> [] \<and> length (parseFilmsPage html) \<le> 125800
              \<and> [heatFilm] = parseFilmsPage html))
      \<and> (\<exists>r. failSecond (watchlistUrl (js ''bob'') 2) = Inr r
           \<and> (\<not> ok r \<or> (\<exists>html. body r = Inr html \<and> parseFilmsPage html = [])))"
    by (simp add: second first heatPage_films)
  have c3: "concat (map (\<lambda>q. [heatFilm]) [1..<3]) = [heatFilm, heatFilm]"
    and c2: "concat (map (\<lambda>q. [heatFilm]) [1..<2]) = [heatFilm]"
    by (simp_all add: upt_rec)
  have lt: "(3 :: nat) < 4" "(2 :: nat) < 3"
    by simp_all
  from pagination_stops [where k = 3 and fetch = emptyThird and username = "js ''bob''"
      and argLimit = 125800 and pages = "\<lambda>q. [heatFilm]"] a
  have w1: "fetchWatchedFilms 125800 emptyThird (js ''bob'')
      = (Inr (concat (map (\<lambda>q. [heatFilm]) [1..<3])), map (filmsUrl (js ''bob'')) [1..<Suc 3])
      \<and> (\<forall>q. 3 < q \<longrightarrow> filmsUrl (js ''bob'') q \<notin> set (snd (fetchWatchedFilms 125800 emptyThird (js ''bob''))))"
    by blast
  from pagination_stops [where k = 2 and fetch = failSecond and username = "js ''bob''"
      and argLimit = 125800 and pages = "\<lambda>q. [heatFilm]"] b
  have w2: "fetchWatchlist 125800 failSecond (js ''bob'')
      = (Inr (concat (map (\<lambda>q. [heatFilm]) [1..<2])), map (watchlistUrl (js ''bob'')) [1..<Suc 2])
      \<and> (\<forall>q. 2 < q \<longrightarrow> watchlistUrl (js ''bob'') q \<notin> set (snd (fetchWatchlist 125800 failSecond (js ''bob''))))"
    by blast
  from w1 have e1: "fetchWatchedFilms 125800 emptyThird (js ''bob'')
      = (Inr [heatFilm, heatFilm], map (filmsUrl (js ''bob'')) [1..<Suc 3])"
    unfolding c3 by blast
  from w2 have e2: "fetchWatchlist 125800 failSecond (js ''bob'')
      = (Inr [heatFilm], map (watchlistUrl (js ''bob'')) [1..<Suc 2])"
    unfolding c2 by blast
  from w1 lt(1) have n1: "filmsUrl (js ''bob'') 4 \<notin> set (snd (fetchWatchedFilms 125800 emptyThird (js ''bob'')))"
    by blast
  from w2 lt(2) have n2: "watchlistUrl (js ''bob'') 3 \<notin> set (snd (fetchWatchlist 125800 failSecond (js ''bob'')))"
    by blast
  from e1 n1 e2 n2 show ?thesis by blast
qed

text \<open>
  C5. Whatever the transport answers, the requests of \<open>fetchWatchedFilms\<close> are the pages
  1 to \<open>n\<close> for some \<open>n\<close> of at most 50, in this order, and those of \<open>fetchWatchlist\<close>
  the pages 1 to \<open>n\<close> for some \<open>n\<close> of at most 20: page 51, or page 21, is never
  requested.
\<close>

theorem page_ceilings:
  "(\<exists>n \<le> 50. snd (fetchWatchedFilms argLimit fetch username) = map (filmsUrl username) [1..<Suc n])
   \<and> (\<forall>p. 50 < p \<longrightarrow> filmsUrl username p \<notin> set (snd (fetchWatchedFilms argLimit fetch username)))
   \<and> (\<exists>n \<le> 20. snd (fetchWatchlist argLimit fetch username) = map (watchlistUrl username) [1..<Suc n])
   \<and> (\<forall>p. 20 < p \<longrightarrow> watchlistUrl username p \<notin> set (snd (fetchWatchlist argLimit fetch username)))"
proof -
  obtain n where n: "1 \<le> n" "n \<le> Suc 50"
    "snd (fetchWatchedFilms argLimit fetch username) = map (filmsUrl username) [1..<n]"
    using pageLoop_requests [of 1 50 argLimit "filmsUrl username" fetch "[]" "[]"]
    by (auto simp: fetchWatchedFilms_def)
  obtain m where m: "1 \<le> m" "m \<le> Suc 20"
    "snd (fetchWatchlist argLimit fetch username) = map (watchlistUrl username) [1..<m]"
    using pageLoop_requests [of 1 20 argLimit "watchlistUrl username" fetch "[]" "[]"]
    by (auto simp: fetchWatchlist_def)
  have a: "\<exists>n \<le> 50. snd (fetchWatchedFilms argLimit fetch username) = map (filmsUrl username) [1..<Suc n]"
    using n by (intro exI [of _ "n - 1"]) auto
  have b: "\<exists>n \<le> 20. snd (fetchWatchlist argLimit fetch username) = map (watchlistUrl username) [1..<Suc n]"
    using m by (intro exI [of _ "m - 1"]) auto
  have c: "\<forall>p. 50 < p \<longrightarrow> filmsUrl username p \<notin> set (snd (fetchWatchedFilms argLimit fetch username))"
    using n by (auto dest!: filmsUrl_inj)
  have d: "\<forall>p. 20 < p \<longrightarrow> watchlistUrl username p \<notin> set (snd (fetchWatchlist argLimit fetch username))"
    using m by (auto dest!: watchlistUrl_inj)
  from a b c d show ?thesis by blast
qed

theorem page_ceilings_witness:
  "snd (fetchWatchlist 125800 alwaysHeat (js ''bob'')) = map (watchlistUrl (js ''bob'')) [1..<Suc 20]
   \<and> (20 :: nat) < 21
   \<and> watchlistUrl (js ''bob'') 21 \<notin> set (snd (fetchWatchlist 125800 alwaysHeat (js ''bob'')))
   \<and> snd (fetchWatchedFilms 125800 alwaysHeat (js ''bob'')) = map (filmsUrl (js ''bob'')) [1..<Suc 50]
   \<and> (50 :: nat) < 51
   \<and> filmsUrl (js ''bob'') 51 \<notin> set (snd (fetchWatchedFilms 125800 alwaysHeat (js ''bob'')))"
proof -
  have w: "snd (fetchWatchlist 125800 alwaysHeat (js ''bob'')) = map (watchlistUrl (js ''bob'')) [1..<Suc 20]"
    unfolding fetchWatchlist_def
    by (subst pageLoop_full [of 1 20 alwaysHeat "watchlistUrl (js ''bob'')" 125800 "\<lambda>q. [heatFilm]"])
      (simp_all add: alwaysHeat_def heatPage_films)
  have f: "snd (fetchWatchedFilms 125800 alwaysHeat (js ''bob'')) = map (filmsUrl (js ''bob'')) [1..<Suc 50]"
    unfolding fetchWatchedFilms_def
    by (subst pageLoop_full [of 1 50 alwaysHeat "filmsUrl (js ''bob'')" 125800 "\<lambda>q. [heatFilm]"])
      (simp_all add: alwaysHeat_def heatPage_films)
  from page_ceilings [of 125800 alwaysHeat "js ''bob''"]
  have "watchlistUrl (js ''bob'') 21 \<notin> set (snd (fetchWatchlist 125800 alwaysHeat (js ''bob'')))"
    and "filmsUrl (js ''bob'') 51 \<notin> set (snd (fetchWatchedFilms 125800 alwaysHeat (js ''bob'')))"
    by simp_all
  with w f show ?thesis by simp
qed

text \<open>
  C6, as the claim states it, fails: \<open>Foo,1999\<close> does not end with a comma, a space and
  four digits, and yet it is split.
\<close>

theorem title_year_spec_counterexample:
  "titleYear (js ''Foo,1999'') = (js ''Foo'', Some (js ''1999''))
   \<and> specTitleYear (js ''Foo,1999'') = (js ''Foo,1999'', None)"
  by code_simp

text \<open>
  C6, amended. A title that is a non-empty text without line terminators, a comma, any
  run of white space (none included) and four digits at the end has the text as its title
  and the digits as its year, whatever commas the text has; every other title is taken
  whole, without a year.
\<close>

theorem title_year_split:
  "(t \<noteq> [] \<and> list_all dot t \<and> list_all isSpace ws \<and> length y = 4 \<and> list_all isDigit y \<longrightarrow>
      titleYear (t @ js '','' @ ws @ y) = (t, Some y))
   \<and> ((\<nexists>t ws y. s = t @ js '','' @ ws @ y \<and> t \<noteq> [] \<and> list_all dot t
          \<and> list_all isSpace ws \<and> length y = 4 \<and> list_all isDigit y) \<longrightarrow>
      titleYear s = (s, None))"
  using titleYear_split titleYear_whole by blast

theorem title_year_split_witness:
  "js ''Crouching Tiger, Hidden Dragon'' \<noteq> []
   \<and> list_all dot (js ''Crouching Tiger, Hidden Dragon'')
   \<and> list_all isSpace (js '' '') \<and> length (js ''2000'') = 4 \<and> list_all isDigit (js ''2000'')
   \<and> titleYear (js ''Crouching Tiger, Hidden Dragon, 2000'')
       = (js ''Crouching Tiger, Hidden Dragon'', Some (js ''2000''))
   \<and> (\<nexists>t ws y. js ''Heat'' = t @ js '','' @ ws @ y \<and> t \<noteq> [] \<and> list_all dot t
          \<and> list_all isSpace ws \<and> length y = 4 \<and> list_all isDigit y)
   \<and> titleYear (js ''Heat'') = (js ''Heat'', None)"
proof -
  have h: "js ''Crouching Tiger, Hidden Dragon'' \<noteq> []
      \<and> list_all dot (js ''Crouching Tiger, Hidden Dragon'')
      \<and> list_all isSpace (js '' '') \<and> length (js ''2000'') = 4 \<and> list_all isDigit (js ''2000'')"
    by code_simp
  have cat: "js ''Crouching Tiger, Hidden Dragon'' @ js '','' @ js '' '' @ js ''2000''
      = js ''Crouching Tiger, Hidden Dragon, 2000''"
    by (simp add: js_def)
  have no: "\<nexists>t ws y. js ''Heat'' = t @ js '','' @ ws @ y \<and> t \<noteq> [] \<and> list_all dot t
          \<and> list_all isSpace ws \<and> length y = 4 \<and> list_all isDigit y"
  proof
    assume "\<exists>t ws y. js ''Heat'' = t @ js '','' @ ws @ y \<and> t \<noteq> [] \<and> list_all dot t
          \<and> list_all isSpace ws \<and> length y = 4 \<and> list_all isDigit y"
    then obtain t ws y where "js ''Heat'' = t @ js '','' @ ws @ y" by blast
    then have "0x2C \<in> set (js ''Heat'')" by (simp add: js_comma)
    then show False by (simp add: js_def)
  qed
  from title_year_split [of "js ''Crouching Tiger, Hidden Dragon''" "js '' ''" "js ''2000''" "js ''Heat''"]
  show ?thesis using h cat no by simp
qed






text \<open>
  C9. The feed parser is a total function from the text of the document to a sequence of
  films: a film for every item where a title is found, in the order of the items, and
  nothing for an item where none is found.
\<close>

theorem feed_skips_untitled_items:
  "feedFilms xml = List.map_filter feedItem (feedItems xml)
   \<and> (\<forall>item. feedItem item = None \<longleftrightarrow> titleMatch item = None)"
  by (simp add: feedFilms_eq feedItem_None_iff)

theorem feed_skips_untitled_items_witness:
  "feedItems untitledFeed = [js ''<link>a</link>'', js ''<title>Heat</title>'']
   \<and> titleMatch (js ''<link>a</link>'') = None
   \<and> map title (feedFilms untitledFeed) = [js ''Heat'']"
proof -
  have items: "feedItems untitledFeed = [js ''<link>a</link>'', js ''<title>Heat</title>'']"
    by code_simp
  have none: "titleMatch (js ''<link>a</link>'') = None"
    by code_simp
  have heat: "map_option title (feedItem (js ''<title>Heat</title>'')) = Some (js ''Heat'')"
    by code_simp
  from feed_skips_untitled_items [of untitledFeed]
  have eq: "feedFilms untitledFeed = List.map_filter feedItem (feedItems untitledFeed)"
    and skip: "feedItem (js ''<link>a</link>'') = None \<longleftrightarrow> titleMatch (js ''<link>a</link>'') = None"
    by blast+
  from skip none have "feedItem (js ''<link>a</link>'') = None" by simp
  with eq items heat have "map title (feedFilms untitledFeed) = [js ''Heat'']"
    by (auto split: option.splits)
  with items none show ?thesis by simp
qed

text \<open>
  C10. A title with no space between the comma and the four digits is split, for every
  non-empty text; and so is the title of a feed item, for any run of white space after
  the comma (the title of an item never has a line terminator).
\<close>

theorem title_year_no_space:
  "(t \<noteq> [] \<and> list_all dot t \<and> length ds = 4 \<and> list_all isDigit ds \<longrightarrow>
      titleYear (t @ js '','' @ ds) = (t, Some ds))
   \<and> (titleMatch item = Some (t @ js '','' @ ws @ ds) \<and> t \<noteq> [] \<and> list_all isSpace ws
        \<and> length ds = 4 \<and> list_all isDigit ds \<longrightarrow>
      (\<exists>f. feedItem item = Some f \<and> title f = t \<and> year f = Some ds))"
proof (intro conjI impI)
  assume "t \<noteq> [] \<and> list_all dot t \<and> length ds = 4 \<and> list_all isDigit ds"
  then show "titleYear (t @ js '','' @ ds) = (t, Some ds)"
    using titleYear_split [of t "[]" ds] by simp
next
  assume a: "titleMatch item = Some (t @ js '','' @ ws @ ds) \<and> t \<noteq> [] \<and> list_all isSpace ws
        \<and> length ds = 4 \<and> list_all isDigit ds"
  then have "list_all dot (t @ js '','' @ ws @ ds)"
    by (intro titleMatch_dot [of item]) simp
  then have "list_all dot t" by simp
  with a have "titleYear (t @ js '','' @ ws @ ds) = (t, Some ds)"
    by (simp add: titleYear_split)
  with a feedItem_title_year [of item "t @ js '','' @ ws @ ds"]
  show "\<exists>f. feedItem item = Some f \<and> title f = t \<and> year f = Some ds"
    by simp
qed

theorem title_year_no_space_witness:
  "titleMatch (js ''<title>Foo,1999</title>'') = Some (js ''Foo'' @ js '','' @ [] @ js ''1999'')
   \<and> js ''Foo'' \<noteq> [] \<and> list_all dot (js ''Foo'') \<and> list_all isSpace []
   \<and> length (js ''1999'') = 4 \<and> list_all isDigit (js ''1999'')
   \<and> titleYear (js ''Foo'' @ js '','' @ js ''1999'') = (js ''Foo'', Some (js ''1999''))
   \<and> (\<exists>f. feedItem (js ''<title>Foo,1999</title>'') = Some f \<and> title f = js ''Foo''
         \<and> year f = Some (js ''1999''))"
proof -
  have h: "titleMatch (js ''<title>Foo,1999</title>'') = Some (js ''Foo'' @ js '','' @ [] @ js ''1999'')
      \<and> js ''Foo'' \<noteq> [] \<and> list_all dot (js ''Foo'') \<and> list_all isSpace []
      \<and> length (js ''1999'') = 4 \<and> list_all isDigit (js ''1999'')"
    by code_simp
  from title_year_no_space [of "js ''Foo''" "js ''1999''" "js ''<title>Foo,1999</title>''" "[]"] h
  show ?thesis by blast
qed

end
